theory Spec2Isabelle
  imports Main
begin

section \<open>Function objects and exceptions\<close>

text \<open>
  The adapters of \<^verbatim>\<open>threadpool/make_iterator.h\<close> are templates over a callable type
  \<^verbatim>\<open>Function\<close>. A callable object is a value with data members (\<open>state\<close>) and a call
  operator (\<open>code\<close>); calling it may change its members, returns a value or throws.
  The members are the callable's own: a copy has the same members and is independent of
  the original from then on. A callable that also reaches data outside itself, through
  a reference or a pointer, has a section of its own below.
  An exception is a value of \<open>error\<close>: \<^verbatim>\<open>std::out_of_range\<close> is the only exception the
  adapters catch, every other exception propagates. Dereferencing a null pointer is
  undefined behaviour in C++; the model makes it the explicit result
  \<open>undefined_behaviour\<close>, which is never caught.
\<close>

datatype error = out_of_range | other_exception string | undefined_behaviour

datatype ('s, 'r) Function =
  Function (code: "'s \<Rightarrow> (error + 'r) \<times> 's") (state: 's)

text \<open>\<^verbatim>\<open>fun()\<close>: the result or exception of the call, and the callable afterwards.\<close>

definition call :: "('s, 'r) Function \<Rightarrow> (error + 'r) \<times> ('s, 'r) Function" where
  "call f = (case code f (state f) of (r, s') \<Rightarrow> (r, Function (code f) s'))"

section \<open>The input iterator made from a function\<close>

text \<open>
  \<^verbatim>\<open>struct Values { bool last = false; bool value_valid = false; Function fun;
  ref_value<value_type> value; }\<close>. The \<^verbatim>\<open>ref_value\<close> of a non-reference type holds a
  value that is default-constructed until one is assigned: \<open>None\<close> stands for the
  default-constructed content.
\<close>

record ('s, 'a) Values =
  v_last :: bool
  v_value_valid :: bool
  v_fun :: "('s, 'a) Function"
  v_value :: "'a option"

text \<open>
  The store: the \<^verbatim>\<open>Values\<close> objects that \<^verbatim>\<open>new Values(fun)\<close> has allocated, the
  \<^verbatim>\<open>Function\<close> objects that \<^verbatim>\<open>new Function(fun)\<close> has allocated for ranges, each addressed
  by its index. The field \<open>invoked\<close> is not in the source: it records, latest first, the
  address of the \<^verbatim>\<open>Values\<close> object on every call of \<^verbatim>\<open>v->fun()\<close>, so that the number of
  producer calls can be stated.
\<close>

record ('s, 'a) heap =
  Values_cells :: "('s, 'a) Values list"
  Function_cells :: "('s, 'a) Function list"
  invoked :: "nat list"

definition empty_heap :: "('s, 'a) heap" where
  "empty_heap = \<lparr>Values_cells = [], Function_cells = [], invoked = []\<rparr>"

text \<open>
  \<^verbatim>\<open>std::shared_ptr<Values> v\<close> is the iterator's only member: \<open>None\<close> is \<^verbatim>\<open>nullptr\<close>,
  \<open>Some a\<close> points to the \<^verbatim>\<open>Values\<close> object at address \<open>a\<close>.
\<close>

type_synonym FunctionInputIterator = "nat option"

definition Values_at :: "('s, 'a) heap \<Rightarrow> nat \<Rightarrow> ('s, 'a) Values option" where
  "Values_at h a =
     (if a < length (Values_cells h) then Some (Values_cells h ! a) else None)"

definition Values_update ::
  "nat \<Rightarrow> (('s, 'a) Values \<Rightarrow> ('s, 'a) Values) \<Rightarrow> ('s, 'a) heap \<Rightarrow> ('s, 'a) heap" where
  "Values_update a g h =
     h\<lparr>Values_cells := (Values_cells h)[a := g (Values_cells h ! a)]\<rparr>"

text \<open>\<^verbatim>\<open>new Values(fun)\<close>: \<^verbatim>\<open>last\<close> and \<^verbatim>\<open>value_valid\<close> are false, \<^verbatim>\<open>fun\<close> is a copy.\<close>

definition new_Values :: "('s, 'a) Function \<Rightarrow> ('s, 'a) heap \<Rightarrow> nat \<times> ('s, 'a) heap" where
  "new_Values f h =
     (length (Values_cells h),
      h\<lparr>Values_cells := Values_cells h @
          [\<lparr>v_last = False, v_value_valid = False, v_fun = f, v_value = None\<rparr>]\<rparr>)"

text \<open>
  \<^verbatim>\<open>v->fun()\<close> on the object at address \<open>a\<close>: the callable stored there is called
  and keeps the members the call leaves it with.
\<close>

definition invoke_fun :: "nat \<Rightarrow> ('s, 'a) heap \<Rightarrow> (error + 'a) \<times> ('s, 'a) heap" where
  "invoke_fun a h =
     (case call (v_fun (Values_cells h ! a)) of
        (r, f') \<Rightarrow> (r, Values_update a (\<lambda>c. c\<lparr>v_fun := f'\<rparr>) (h\<lparr>invoked := a # invoked h\<rparr>)))"

subsection \<open>Constructors, copy and increment\<close>

text \<open>\<^verbatim>\<open>FunctionInputIterator() = default\<close>: the pointer is null.\<close>

definition FunctionInputIterator_default :: FunctionInputIterator where
  "FunctionInputIterator_default = None"

text \<open>
  \<^verbatim>\<open>FunctionInputIterator(const Function& fun) : v(new Values(fun))\<close>; the constructor
  from \<^verbatim>\<open>Function&&\<close> does the same and ignores its parameter \<^verbatim>\<open>last\<close>.
\<close>

definition FunctionInputIterator_from ::
  "('s, 'a) Function \<Rightarrow> ('s, 'a) heap \<Rightarrow> FunctionInputIterator \<times> ('s, 'a) heap" where
  "FunctionInputIterator_from f h = (case new_Values f h of (a, h') \<Rightarrow> (Some a, h'))"

text \<open>The defaulted copy constructor and copy assignment copy the pointer.\<close>

definition FunctionInputIterator_copy ::
  "FunctionInputIterator \<Rightarrow> ('s, 'a) heap \<Rightarrow> FunctionInputIterator \<times> ('s, 'a) heap" where
  "FunctionInputIterator_copy x h = (x, h)"

text \<open>\<^verbatim>\<open>operator++() { return *this; }\<close>, prefix and postfix alike.\<close>

definition increment ::
  "FunctionInputIterator \<Rightarrow> ('s, 'a) heap \<Rightarrow> FunctionInputIterator \<times> ('s, 'a) heap" where
  "increment this h = (this, h)"

subsection \<open>\<^verbatim>\<open>operator*\<close>\<close>

text \<open>
  The end of \<^verbatim>\<open>operator*\<close>: \<^verbatim>\<open>if (v->last) throw std::out_of_range("");
  return v->value.move();\<close>. The rvalue reference it returns refers to the stored value,
  which the function itself leaves in place.
\<close>

definition throw_or_move :: "nat \<Rightarrow> ('s, 'a) heap \<Rightarrow> (error + 'a option) \<times> ('s, 'a) heap" where
  "throw_or_move a h =
     (if v_last (Values_cells h ! a) then (Inl out_of_range, h)
      else (Inr (v_value (Values_cells h ! a)), h))"

definition dereference ::
  "FunctionInputIterator \<Rightarrow> ('s, 'a) heap \<Rightarrow> (error + 'a option) \<times> ('s, 'a) heap" where
  "dereference this h =
     (case this of
        None \<Rightarrow> (Inl undefined_behaviour, h)
      | Some a \<Rightarrow>
          (case Values_at h a of
             None \<Rightarrow> (Inl undefined_behaviour, h)
           | Some c \<Rightarrow>
               if v_value_valid c then
                 throw_or_move a (Values_update a (\<lambda>c. c\<lparr>v_value_valid := False\<rparr>) h)
               else if \<not> v_last c then
                 (case invoke_fun a h of
                    (Inr x, h1) \<Rightarrow>
                      throw_or_move a (Values_update a (\<lambda>c. c\<lparr>v_value := Some x\<rparr>) h1)
                  | (Inl out_of_range, h1) \<Rightarrow>
                      throw_or_move a (Values_update a (\<lambda>c. c\<lparr>v_last := True\<rparr>) h1)
                  | (Inl e, h1) \<Rightarrow> (Inl e, h1))
               else throw_or_move a h))"

subsection \<open>\<^verbatim>\<open>operator==\<close> and \<^verbatim>\<open>operator!=\<close>\<close>

text \<open>
  The test \<^verbatim>\<open>v != nullptr && !(v->last || v->value_valid)\<close>, which the source
  writes once for \<^verbatim>\<open>this\<close> and once for \<^verbatim>\<open>x\<close>.
\<close>

definition not_fetched :: "FunctionInputIterator \<Rightarrow> ('s, 'a) heap \<Rightarrow> bool" where
  "not_fetched it h =
     (case it of
        None \<Rightarrow> False
      | Some a \<Rightarrow> \<not> (v_last (Values_cells h ! a) \<or> v_value_valid (Values_cells h ! a)))"

text \<open>\<^verbatim>\<open>v == nullptr || v->last\<close>.\<close>

definition null_or_last :: "FunctionInputIterator \<Rightarrow> ('s, 'a) heap \<Rightarrow> bool" where
  "null_or_last it h =
     (case it of None \<Rightarrow> True | Some a \<Rightarrow> v_last (Values_cells h ! a))"

text \<open>A non-null pointer that does not point to an allocated object.\<close>

definition dangling :: "FunctionInputIterator \<Rightarrow> ('s, 'a) heap \<Rightarrow> bool" where
  "dangling it h = (case it of None \<Rightarrow> False | Some a \<Rightarrow> length (Values_cells h) \<le> a)"

text \<open>
  The \<^verbatim>\<open>try\<close> block of \<^verbatim>\<open>operator==\<close>:
  \<^verbatim>\<open>v->value = v->fun(); v->value_valid = true;\<close> with
  \<^verbatim>\<open>catch (std::out_of_range) { v->last = true; }\<close>. The result is the exception that
  leaves the block, if any.
\<close>

definition fetch :: "nat \<Rightarrow> ('s, 'a) heap \<Rightarrow> error option \<times> ('s, 'a) heap" where
  "fetch a h =
     (case invoke_fun a h of
        (Inr x, h1) \<Rightarrow>
          (None, Values_update a (\<lambda>c. c\<lparr>v_value := Some x, v_value_valid := True\<rparr>) h1)
      | (Inl out_of_range, h1) \<Rightarrow> (None, Values_update a (\<lambda>c. c\<lparr>v_last := True\<rparr>) h1)
      | (Inl e, h1) \<Rightarrow> (Some e, h1))"

text \<open>
  The first statement of \<^verbatim>\<open>operator==\<close>, on the iterator \<open>it\<close>:
  \<^verbatim>\<open>if (v != nullptr && !(v->last || v->value_valid)) { try ... }\<close>.
\<close>

definition lookahead ::
  "FunctionInputIterator \<Rightarrow> ('s, 'a) heap \<Rightarrow> error option \<times> ('s, 'a) heap" where
  "lookahead it h =
     (case it of
        None \<Rightarrow> (None, h)
      | Some a \<Rightarrow>
          if \<not> (v_last (Values_cells h ! a) \<or> v_value_valid (Values_cells h ! a))
          then fetch a h else (None, h))"

text \<open>
  \<^verbatim>\<open>bool operator==(const FunctionInputIterator& x) const\<close>. After the lookahead on
  \<^verbatim>\<open>this\<close>, the source calls \<^verbatim>\<open>x.operator==(*this)\<close> when \<^verbatim>\<open>x\<close> has no lookahead yet.
\<close>

function operator_eq ::
  "FunctionInputIterator \<Rightarrow> FunctionInputIterator \<Rightarrow> ('s, 'a) heap \<Rightarrow>
     (error + bool) \<times> ('s, 'a) heap" where
  "operator_eq this x h =
     (if dangling this h \<or> dangling x h then (Inl undefined_behaviour, h)
      else
        (case lookahead this h of
           (Some e, h1) \<Rightarrow> (Inl e, h1)
         | (None, h1) \<Rightarrow>
             if not_fetched x h1 then operator_eq x this h1
             else (Inr (null_or_last this h1 = null_or_last x h1), h1)))"
  by pat_completeness auto

text \<open>
  Termination of \<^verbatim>\<open>operator==\<close>: the lookahead leaves \<^verbatim>\<open>this\<close> with \<^verbatim>\<open>last\<close> or
  \<^verbatim>\<open>value_valid\<close> set and touches no other object, so the inner call
  \<^verbatim>\<open>x.operator==(*this)\<close> makes no further call.
\<close>

termination operator_eq
proof (relation "measure (\<lambda>(this, x, h).
         (if not_fetched x h then 2 else 0) + (if not_fetched this h then 1 else 0))",
       goal_cases)
  case 1
  show ?case by simp
next
  case (2 this x h e h1)
  from 2 have la: "lookahead this h = (None, h1)" by simp
  have fetched: "\<not> not_fetched this h1"
    using la 2(1)
    by (auto simp: lookahead_def not_fetched_def dangling_def fetch_def invoke_fun_def
          Values_update_def
        split: option.splits if_splits prod.splits sum.splits error.splits)
  with 2 have "x \<noteq> this" by auto
  with la have "not_fetched x h1 = not_fetched x h"
    by (auto simp: lookahead_def not_fetched_def fetch_def invoke_fun_def Values_update_def
        split: option.splits if_splits prod.splits sum.splits error.splits)
  with fetched 2 show ?case
    by simp
qed

declare operator_eq.simps [simp del]

text \<open>\<^verbatim>\<open>bool operator!=(const FunctionInputIterator& x) const { return !operator==(x); }\<close>\<close>

definition operator_neq ::
  "FunctionInputIterator \<Rightarrow> FunctionInputIterator \<Rightarrow> ('s, 'a) heap \<Rightarrow>
     (error + bool) \<times> ('s, 'a) heap" where
  "operator_neq this x h =
     (case operator_eq this x h of (Inl e, h1) \<Rightarrow> (Inl e, h1) | (Inr b, h1) \<Rightarrow> (Inr (\<not> b), h1))"

section \<open>The input range made from a function\<close>

text \<open>
  \<^verbatim>\<open>std::shared_ptr<Function> fun\<close> is the range's only member; the constructors from
  a function allocate it with \<^verbatim>\<open>new Function(fun)\<close>, a moved-from range holds
  \<^verbatim>\<open>nullptr\<close>.
\<close>

type_synonym FunctionInputIteratorRange = "nat option"

definition FunctionInputIteratorRange_from ::
  "('s, 'a) Function \<Rightarrow> ('s, 'a) heap \<Rightarrow> FunctionInputIteratorRange \<times> ('s, 'a) heap" where
  "FunctionInputIteratorRange_from f h =
     (Some (length (Function_cells h)), h\<lparr>Function_cells := Function_cells h @ [f]\<rparr>)"

text \<open>\<^verbatim>\<open>begin() { return FunctionInputIterator<Function>(*fun.get()); }\<close>\<close>

definition range_begin ::
  "FunctionInputIteratorRange \<Rightarrow> ('s, 'a) heap \<Rightarrow>
     (error + FunctionInputIterator) \<times> ('s, 'a) heap" where
  "range_begin r h =
     (case r of
        None \<Rightarrow> (Inl undefined_behaviour, h)
      | Some p \<Rightarrow>
          if p < length (Function_cells h) then
            (case FunctionInputIterator_from (Function_cells h ! p) h of
               (it, h1) \<Rightarrow> (Inr it, h1))
          else (Inl undefined_behaviour, h))"

text \<open>\<^verbatim>\<open>end() { return FunctionInputIterator<Function>(); }\<close>\<close>

definition range_end :: "FunctionInputIteratorRange \<Rightarrow> FunctionInputIterator" where
  "range_end r = FunctionInputIterator_default"

text \<open>\<^verbatim>\<open>threadpool::make_function_input_range(Function&& fun)\<close>\<close>

definition make_function_input_range ::
  "('s, 'a) Function \<Rightarrow> ('s, 'a) heap \<Rightarrow> FunctionInputIteratorRange \<times> ('s, 'a) heap" where
  "make_function_input_range f h = FunctionInputIteratorRange_from f h"

section \<open>Callables that reach data outside themselves\<close>

text \<open>
  A closure that captures a variable by reference, or a callable that holds a pointer,
  reaches data that is not among its members, and a copy of it reaches the same data.
  For such a callable the call operator also reads and changes that data, \<open>'g\<close>.
\<close>

datatype ('s, 'g, 'r) Function_ref =
  Function_ref (code_ref: "'s \<Rightarrow> 'g \<Rightarrow> (error + 'r) \<times> 's \<times> 'g") (state_ref: 's)

text \<open>
  \<^verbatim>\<open>fun()\<close>, with the data the callable reaches: the result or exception of the call,
  the callable afterwards and the data afterwards.
\<close>

definition call_ref ::
  "('s, 'g, 'r) Function_ref \<Rightarrow> 'g \<Rightarrow> (error + 'r) \<times> ('s, 'g, 'r) Function_ref \<times> 'g" where
  "call_ref f g =
     (case code_ref f (state_ref f) g of (r, s', g') \<Rightarrow> (r, Function_ref (code_ref f) s', g'))"

text \<open>A callable that owns its state, taken as one that leaves the data outside alone.\<close>

definition by_value :: "('s, 'r) Function \<Rightarrow> ('s, 'g, 'r) Function_ref" where
  "by_value f =
     Function_ref (\<lambda>s g. case code f s of (r, s') \<Rightarrow> (r, s', g)) (state f)"

text \<open>
  \<^verbatim>\<open>struct Values\<close> and the store for these callables. The store has one more component,
  \<open>referenced\<close>: the data that the callables reach by reference. \<open>invoked_ref\<close> records the
  calls of \<^verbatim>\<open>v->fun()\<close>, as \<open>invoked\<close> does above.
\<close>

record ('s, 'g, 'a) Values_ref =
  r_last :: bool
  r_value_valid :: bool
  r_fun :: "('s, 'g, 'a) Function_ref"
  r_value :: "'a option"

record ('s, 'g, 'a) heap_ref =
  Values_ref_cells :: "('s, 'g, 'a) Values_ref list"
  Function_ref_cells :: "('s, 'g, 'a) Function_ref list"
  referenced :: 'g
  invoked_ref :: "nat list"

definition Values_ref_update ::
  "nat \<Rightarrow> (('s, 'g, 'a) Values_ref \<Rightarrow> ('s, 'g, 'a) Values_ref) \<Rightarrow>
     ('s, 'g, 'a) heap_ref \<Rightarrow> ('s, 'g, 'a) heap_ref" where
  "Values_ref_update a u h =
     h\<lparr>Values_ref_cells := (Values_ref_cells h)[a := u (Values_ref_cells h ! a)]\<rparr>"

text \<open>\<^verbatim>\<open>new Values(fun)\<close>: the copy of the callable has the same members, and reaches the same data.\<close>

definition new_Values_ref ::
  "('s, 'g, 'a) Function_ref \<Rightarrow> ('s, 'g, 'a) heap_ref \<Rightarrow> nat \<times> ('s, 'g, 'a) heap_ref" where
  "new_Values_ref f h =
     (length (Values_ref_cells h),
      h\<lparr>Values_ref_cells := Values_ref_cells h @
          [\<lparr>r_last = False, r_value_valid = False, r_fun = f, r_value = None\<rparr>]\<rparr>)"

text \<open>
  \<^verbatim>\<open>v->fun()\<close> on the object at address \<open>a\<close>: the call changes the members of the callable
  stored there, and the data it reaches.
\<close>

definition invoke_fun_ref ::
  "nat \<Rightarrow> ('s, 'g, 'a) heap_ref \<Rightarrow> (error + 'a) \<times> ('s, 'g, 'a) heap_ref" where
  "invoke_fun_ref a h =
     (case call_ref (r_fun (Values_ref_cells h ! a)) (referenced h) of
        (r, f', g') \<Rightarrow>
          (r, Values_ref_update a (\<lambda>c. c\<lparr>r_fun := f'\<rparr>)
                (h\<lparr>referenced := g', invoked_ref := a # invoked_ref h\<rparr>)))"

text \<open>\<^verbatim>\<open>if (v->last) throw std::out_of_range(""); return v->value.move();\<close>\<close>

definition throw_or_move_ref ::
  "nat \<Rightarrow> ('s, 'g, 'a) heap_ref \<Rightarrow> (error + 'a option) \<times> ('s, 'g, 'a) heap_ref" where
  "throw_or_move_ref a h =
     (if r_last (Values_ref_cells h ! a) then (Inl out_of_range, h)
      else (Inr (r_value (Values_ref_cells h ! a)), h))"

text \<open>\<^verbatim>\<open>operator*\<close>, statement for statement as above.\<close>

definition dereference_ref ::
  "FunctionInputIterator \<Rightarrow> ('s, 'g, 'a) heap_ref \<Rightarrow>
     (error + 'a option) \<times> ('s, 'g, 'a) heap_ref" where
  "dereference_ref this h =
     (case this of
        None \<Rightarrow> (Inl undefined_behaviour, h)
      | Some a \<Rightarrow>
          if a < length (Values_ref_cells h) then
            if r_value_valid (Values_ref_cells h ! a) then
              throw_or_move_ref a (Values_ref_update a (\<lambda>c. c\<lparr>r_value_valid := False\<rparr>) h)
            else if \<not> r_last (Values_ref_cells h ! a) then
              (case invoke_fun_ref a h of
                 (Inr x, h1) \<Rightarrow>
                   throw_or_move_ref a (Values_ref_update a (\<lambda>c. c\<lparr>r_value := Some x\<rparr>) h1)
               | (Inl out_of_range, h1) \<Rightarrow>
                   throw_or_move_ref a (Values_ref_update a (\<lambda>c. c\<lparr>r_last := True\<rparr>) h1)
               | (Inl e, h1) \<Rightarrow> (Inl e, h1))
            else throw_or_move_ref a h
          else (Inl undefined_behaviour, h))"


text \<open>\<^verbatim>\<open>begin() { return FunctionInputIterator<Function>(*fun.get()); }\<close>\<close>

definition range_begin_ref ::
  "FunctionInputIteratorRange \<Rightarrow> ('s, 'g, 'a) heap_ref \<Rightarrow>
     (error + FunctionInputIterator) \<times> ('s, 'g, 'a) heap_ref" where
  "range_begin_ref r h =
     (case r of
        None \<Rightarrow> (Inl undefined_behaviour, h)
      | Some p \<Rightarrow>
          if p < length (Function_ref_cells h) then
            (case new_Values_ref (Function_ref_cells h ! p) h of (a, h1) \<Rightarrow> (Inr (Some a), h1))
          else (Inl undefined_behaviour, h))"

section \<open>The output iterator made from a function\<close>

text \<open>
  The callable of an output iterator takes one argument, the value assigned, and
  returns nothing; it may change its members and it may throw.
\<close>

datatype ('s, 'b) Function1 =
  Function1 (code1: "'s \<Rightarrow> 'b \<Rightarrow> error option \<times> 's") (state1: 's)

text \<open>\<^verbatim>\<open>fun(arg)\<close>: the exception of the call, if any, and the callable afterwards.\<close>

definition call1 :: "('s, 'b) Function1 \<Rightarrow> 'b \<Rightarrow> error option \<times> ('s, 'b) Function1" where
  "call1 f arg = (case code1 f (state1 f) arg of (r, s') \<Rightarrow> (r, Function1 (code1 f) s'))"

text \<open>
  The store of the \<^verbatim>\<open>Function\<close> objects that \<^verbatim>\<open>new Function(fun)\<close> has allocated for
  output iterators. The field \<open>consumed\<close> is not in the source: it records, latest first,
  the address and the argument of every call \<^verbatim>\<open>(*fun.get())(arg)\<close>.
\<close>

record ('s, 'b) out_heap =
  Function1_cells :: "('s, 'b) Function1 list"
  consumed :: "(nat \<times> 'b) list"

text \<open>\<^verbatim>\<open>std::shared_ptr<Function> fun\<close> is the iterator's only member.\<close>

type_synonym FunctionOutputIterator = "nat option"

text \<open>\<^verbatim>\<open>FunctionOutputIterator() { }\<close>: the pointer is null.\<close>

definition FunctionOutputIterator_default :: FunctionOutputIterator where
  "FunctionOutputIterator_default = None"

text \<open>\<^verbatim>\<open>FunctionOutputIterator(const Function& fun) : fun(new Function(fun))\<close>\<close>

definition FunctionOutputIterator_from ::
  "('s, 'b) Function1 \<Rightarrow> ('s, 'b) out_heap \<Rightarrow> FunctionOutputIterator \<times> ('s, 'b) out_heap" where
  "FunctionOutputIterator_from f h =
     (Some (length (Function1_cells h)), h\<lparr>Function1_cells := Function1_cells h @ [f]\<rparr>)"

text \<open>The defaulted copy constructor copies the pointer.\<close>

definition FunctionOutputIterator_copy ::
  "FunctionOutputIterator \<Rightarrow> ('s, 'b) out_heap \<Rightarrow> FunctionOutputIterator \<times> ('s, 'b) out_heap" where
  "FunctionOutputIterator_copy x h = (x, h)"

text \<open>\<^verbatim>\<open>operator++() { return *this; }\<close>, prefix and postfix alike.\<close>

definition out_increment ::
  "FunctionOutputIterator \<Rightarrow> ('s, 'b) out_heap \<Rightarrow> FunctionOutputIterator \<times> ('s, 'b) out_heap" where
  "out_increment this h = (this, h)"

text \<open>\<^verbatim>\<open>operator*() { return *this; }\<close>\<close>

definition out_dereference ::
  "FunctionOutputIterator \<Rightarrow> ('s, 'b) out_heap \<Rightarrow> FunctionOutputIterator \<times> ('s, 'b) out_heap" where
  "out_dereference this h = (this, h)"

text \<open>
  \<^verbatim>\<open>template<class Arg> void operator=(Arg&& arg) { (*fun.get())(std::forward<Arg>(arg)); }\<close>.
  On a default-constructed iterator the call dereferences a null pointer.
\<close>

definition assign ::
  "FunctionOutputIterator \<Rightarrow> 'b \<Rightarrow> ('s, 'b) out_heap \<Rightarrow> error option \<times> ('s, 'b) out_heap" where
  "assign this arg h =
     (case this of
        None \<Rightarrow> (Some undefined_behaviour, h)
      | Some a \<Rightarrow>
          if a < length (Function1_cells h) then
            (case call1 (Function1_cells h ! a) arg of
               (r, f') \<Rightarrow>
                 (r, h\<lparr>Function1_cells := (Function1_cells h)[a := f'],
                       consumed := (a, arg) # consumed h\<rparr>))
          else (Some undefined_behaviour, h))"

text \<open>\<^verbatim>\<open>threadpool::make_function_output_iterator(Function&& fun)\<close>\<close>

definition make_function_output_iterator ::
  "('s, 'b) Function1 \<Rightarrow> ('s, 'b) out_heap \<Rightarrow> FunctionOutputIterator \<times> ('s, 'b) out_heap" where
  "make_function_output_iterator f h = FunctionOutputIterator_from f h"

section \<open>Programs that use the iterators\<close>

text \<open>
  What a caller can do with iterators and ranges: any of the member functions, on any
  iterator or range, in any order. An exception that an operation throws is caught by
  the caller, who goes on with the store the operation has left.
\<close>

datatype ('s, 'a) operation =
  Dereference FunctionInputIterator
| Equal FunctionInputIterator FunctionInputIterator
| Not_equal FunctionInputIterator FunctionInputIterator
| Increment FunctionInputIterator
| Copy FunctionInputIterator
| Construct "('s, 'a) Function"
| Make_range "('s, 'a) Function"
| Begin FunctionInputIteratorRange

fun perform :: "('s, 'a) operation \<Rightarrow> ('s, 'a) heap \<Rightarrow> ('s, 'a) heap" where
  "perform (Dereference it) h = snd (dereference it h)"
| "perform (Equal x y) h = snd (operator_eq x y h)"
| "perform (Not_equal x y) h = snd (operator_neq x y h)"
| "perform (Increment it) h = snd (increment it h)"
| "perform (Copy it) h = snd (FunctionInputIterator_copy it h)"
| "perform (Construct f) h = snd (FunctionInputIterator_from f h)"
| "perform (Make_range f) h = snd (make_function_input_range f h)"
| "perform (Begin r) h = snd (range_begin r h)"

definition perform_all :: "('s, 'a) operation list \<Rightarrow> ('s, 'a) heap \<Rightarrow> ('s, 'a) heap" where
  "perform_all ops h = fold perform ops h"

text \<open>
  The loop of a range-based \<^verbatim>\<open>for\<close> statement, or of an algorithm on the iterator pair:
  \<^verbatim>\<open>for (; first != last; ++first) out.push_back(*first);\<close>. The loop may run for
  ever (the producer may never signal the end); an exception ends it. \<open>None\<close> is the
  loop that does not return.
\<close>

partial_function (option) collect ::
  "FunctionInputIterator \<Rightarrow> FunctionInputIterator \<Rightarrow> 'a option list \<Rightarrow> ('s, 'a) heap \<Rightarrow>
     ((error + 'a option list) \<times> ('s, 'a) heap) option" where
  "collect first last_it out h =
     (case operator_neq first last_it h of
        (Inl e, h1) \<Rightarrow> Some (Inl e, h1)
      | (Inr b, h1) \<Rightarrow>
          if b then
            (case dereference first h1 of
               (Inl e, h2) \<Rightarrow> Some (Inl e, h2)
             | (Inr x, h2) \<Rightarrow>
                 (case increment first h2 of
                    (first', h3) \<Rightarrow> collect first' last_it (out @ [x]) h3))
          else Some (Inr out, h1))"

text \<open>
  Assigning a sequence of values through the iterator, as \<^verbatim>\<open>std::copy\<close> does:
  \<^verbatim>\<open>for (; first != last; ++result, ++first) *result = *first;\<close>. An exception thrown
  by the consumer ends the loop.
\<close>

fun copy_to ::
  "'b list \<Rightarrow> FunctionOutputIterator \<Rightarrow> ('s, 'b) out_heap \<Rightarrow>
     error option \<times> FunctionOutputIterator \<times> ('s, 'b) out_heap" where
  "copy_to [] result h = (None, result, h)"
| "copy_to (x # xs) result h =
     (case out_dereference result h of
        (target, h1) \<Rightarrow>
          (case assign target x h1 of
             (Some e, h2) \<Rightarrow> (Some e, result, h2)
           | (None, h2) \<Rightarrow>
               (case out_increment result h2 of (result', h3) \<Rightarrow> copy_to xs result' h3)))"

section \<open>The pool: bulk submission and task failure\<close>

text \<open>
  The pool itself (\<^verbatim>\<open>threadpool.h\<close> and the headers under \<^verbatim>\<open>threadpool/impl\<close> that the
  library's makefile lists) is not among the source files. What follows is written from
  the specification's description of it.
\<close>

text \<open>
  Modelled from the spec: the state of a Task, "{Pending, Running, Completed(value),
  Failed(error)}"; the task and handle classes are missing from the source files.
\<close>

datatype ('e, 'r) Task_state = Pending | Running | Completed 'r | Failed 'e

text \<open>
  Modelled from the spec: the pool, whose class is missing from the source files. \<open>tasks\<close>
  holds every submitted Task with its argument and its completion slot; a result handle
  is the index of its Task. \<open>queue\<close> is the FIFO work queue, \<open>workers\<close> has one entry per
  worker thread, the Task it is executing if any. For a bulk submission, \<open>remaining\<close> is
  the part of the input sequence not yet submitted, \<open>in_flight\<close> the handles submitted
  and not yet yielded, in submission order, and \<open>yielded\<close> what the output sequence has
  yielded so far.
\<close>

record ('a, 'e, 'r) Pool =
  tasks :: "('a \<times> ('e, 'r) Task_state) list"
  queue :: "nat list"
  workers :: "nat option list"
  remaining :: "'a list"
  in_flight :: "nat list"
  yielded :: "('e + 'r) list"

text \<open>
  Modelled from the spec: pool construction with \<^verbatim>\<open>worker_count\<close> workers, "threads
  started eagerly", all idle; the constructor is missing from the source files.
\<close>

definition new_Pool :: "nat \<Rightarrow> ('a, 'e, 'r) Pool" where
  "new_Pool worker_count =
     \<lparr>tasks = [], queue = [], workers = replicate worker_count None,
      remaining = [], in_flight = [], yielded = []\<rparr>"

text \<open>
  Modelled from the spec: \<^verbatim>\<open>submit\<close>, missing from the source files. The Task is appended
  to the FIFO queue as Pending and its handle is returned.
\<close>

definition submit :: "'a \<Rightarrow> ('a, 'e, 'r) Pool \<Rightarrow> nat \<times> ('a, 'e, 'r) Pool" where
  "submit x s =
     (length (tasks s),
      s\<lparr>tasks := tasks s @ [(x, Pending)], queue := queue s @ [length (tasks s)]\<rparr>)"

text \<open>
  Modelled from the spec: \<^verbatim>\<open>handle.get()\<close>, missing from the source files. It "blocks
  the calling thread until Completed or Failed, then returns the value or re-raises the
  error": \<open>None\<close> is the blocked call, \<open>Some (Inl e)\<close> the error \<open>e\<close> raised again on the
  calling thread.
\<close>

definition get :: "('a, 'e, 'r) Pool \<Rightarrow> nat \<Rightarrow> ('e + 'r) option" where
  "get s h =
     (if h < length (tasks s) then
        (case snd (tasks s ! h) of
           Completed v \<Rightarrow> Some (Inr v)
         | Failed e \<Rightarrow> Some (Inl e)
         | Pending \<Rightarrow> None
         | Running \<Rightarrow> None)
      else None)"

text \<open>
  Modelled from the spec: one lazy step of the bulk submission, missing from the source
  files: the next value of the input sequence, if there is one, is submitted as one
  Task and its handle is appended to the handles in flight.
\<close>

definition submit_next :: "('a, 'e, 'r) Pool \<Rightarrow> ('a, 'e, 'r) Pool" where
  "submit_next s =
     (case remaining s of
        [] \<Rightarrow> s
      | x # xs \<Rightarrow>
          (case submit x s of
             (h, s') \<Rightarrow> s'\<lparr>remaining := xs, in_flight := in_flight s' @ [h]\<rparr>))"

text \<open>
  Modelled from the spec: \<^verbatim>\<open>submit_range\<close>, missing from the source files. "The engine
  enqueues eagerly up to an implementation-chosen watermark and submits the remainder
  lazily as the output sequence is drained."
\<close>

definition submit_range :: "nat \<Rightarrow> 'a list \<Rightarrow> ('a, 'e, 'r) Pool \<Rightarrow> ('a, 'e, 'r) Pool" where
  "submit_range watermark xs s =
     (submit_next ^^ watermark) (s\<lparr>remaining := xs, in_flight := [], yielded := []\<rparr>)"

text \<open>
  Modelled from the spec: what the threads of the system can do, one step at a time. Any
  caller thread submits a Task; a worker that is idle dequeues the first Task of the
  queue; a worker that holds a Task executes it and stores the result or failure; the
  consumer of the output sequence takes the next result, in submission order, once it
  is there. A schedule is a list of such steps, so a property of all schedules holds
  for every order in which the workers complete their Tasks.
\<close>

datatype 'a event = Submit 'a | Dequeue nat | Execute nat | Yield

text \<open>
  Modelled from the spec: the execution contract of a Task, missing from the source
  files. The callable \<open>f\<close> returns \<open>Inr v\<close> or raises \<open>Inl e\<close>: "If invocation completes
  normally, the return value is stored in the completion slot and the handle
  transitions to Completed. If invocation raises an error, the error is captured and
  stored; the handle transitions to Failed."
\<close>

definition run_task :: "('a \<Rightarrow> 'e + 'r) \<Rightarrow> 'a \<Rightarrow> ('e, 'r) Task_state" where
  "run_task f x = (case f x of Inl e \<Rightarrow> Failed e | Inr v \<Rightarrow> Completed v)"

text \<open>
  Modelled from the spec: the effect of one step; \<open>None\<close> when the step cannot be taken
  (no idle worker or empty queue, a worker without Task, a consumer whose next result is
  not there yet). The worker loop is missing from the source files. A worker that has
  executed a Task is idle again, whatever the outcome.
\<close>

fun fire ::
  "('a \<Rightarrow> 'e + 'r) \<Rightarrow> 'a event \<Rightarrow> ('a, 'e, 'r) Pool \<Rightarrow> ('a, 'e, 'r) Pool option" where
  "fire f (Submit x) s = Some (snd (submit x s))"
| "fire f (Dequeue w) s =
     (if w < length (workers s) \<and> workers s ! w = None then
        (case queue s of
           [] \<Rightarrow> None
         | i # q \<Rightarrow>
             Some (s\<lparr>queue := q, workers := (workers s)[w := Some i],
                     tasks := (tasks s)[i := (fst (tasks s ! i), Running)]\<rparr>))
      else None)"
| "fire f (Execute w) s =
     (if w < length (workers s) then
        (case workers s ! w of
           None \<Rightarrow> None
         | Some i \<Rightarrow>
             Some (s\<lparr>workers := (workers s)[w := None],
                     tasks := (tasks s)[i := (fst (tasks s ! i), run_task f (fst (tasks s ! i)))]\<rparr>))
      else None)"
| "fire f Yield s =
     (case in_flight s of
        [] \<Rightarrow> None
      | h # hs \<Rightarrow>
          (case get s h of
             None \<Rightarrow> None
           | Some r \<Rightarrow> Some (submit_next (s\<lparr>in_flight := hs, yielded := yielded s @ [r]\<rparr>))))"

text \<open>Modelled from the spec: the steps of a schedule, taken one after the other.\<close>

fun run :: "('a \<Rightarrow> 'e + 'r) \<Rightarrow> 'a event list \<Rightarrow> ('a, 'e, 'r) Pool \<Rightarrow> ('a, 'e, 'r) Pool option" where
  "run f [] s = Some s"
| "run f (ev # evs) s = (case fire f ev s of None \<Rightarrow> None | Some s' \<Rightarrow> run f evs s')"

section \<open>Notions for stating the properties\<close>

text \<open>How often \<^verbatim>\<open>v->fun()\<close> has been called on the \<^verbatim>\<open>Values\<close> object at address \<open>a\<close>.\<close>

definition calls :: "('s, 'a) heap \<Rightarrow> nat \<Rightarrow> nat" where
  "calls h a = count_list (invoked h) a"


text \<open>
  A store of callables that own their state, seen as a store of callables that leave the
  data \<open>g\<close> outside them alone.
\<close>

definition with_referenced :: "'g \<Rightarrow> ('s, 'a) heap \<Rightarrow> ('s, 'g, 'a) heap_ref" where
  "with_referenced g h =
     \<lparr>Values_ref_cells =
        map (\<lambda>c. \<lparr>r_last = v_last c, r_value_valid = v_value_valid c,
                   r_fun = by_value (v_fun c), r_value = v_value c\<rparr>) (Values_cells h),
      Function_ref_cells = map by_value (Function_cells h),
      referenced = g, invoked_ref = invoked h\<rparr>"

text \<open>The \<^verbatim>\<open>Values\<close> object at address \<open>a\<close> exists and its \<^verbatim>\<open>last\<close> flag is set.\<close>

definition exhausted :: "('s, 'a) heap \<Rightarrow> nat \<Rightarrow> bool" where
  "exhausted h a = (a < length (Values_cells h) \<and> v_last (Values_cells h ! a))"

text \<open>
  Successive calls of the producer \<open>f\<close> return the values \<open>xs\<close>, in this order, and leave
  the producer as \<open>f'\<close>.
\<close>

fun returns :: "('s, 'a) Function \<Rightarrow> 'a list \<Rightarrow> ('s, 'a) Function option" where
  "returns f [] = Some f"
| "returns f (x # xs) =
     (case call f of (Inr y, f') \<Rightarrow> if y = x then returns f' xs else None | (Inl e, f') \<Rightarrow> None)"



text \<open>A finished Task holds the outcome of the callable on the Task's own argument.\<close>

definition task_ok :: "('a \<Rightarrow> 'e + 'r) \<Rightarrow> 'a \<times> ('e, 'r) Task_state \<Rightarrow> bool" where
  "task_ok f t =
     (case snd t of
        Completed v \<Rightarrow> f (fst t) = Inr v
      | Failed e \<Rightarrow> f (fst t) = Inl e
      | Pending \<Rightarrow> True
      | Running \<Rightarrow> True)"

text \<open>
  The invariant of a bulk submission of \<open>xs\<close>: the arguments of the Tasks in flight,
  followed by the inputs not yet submitted, are the inputs from the first one not yet
  yielded on; the results yielded are the outcomes for the inputs before it; and every
  Pending Task is in the queue, every Running Task with a worker.
\<close>

definition bulk_inv :: "('a \<Rightarrow> 'e + 'r) \<Rightarrow> 'a list \<Rightarrow> ('a, 'e, 'r) Pool \<Rightarrow> bool" where
  "bulk_inv f xs s =
     (map (\<lambda>h. fst (tasks s ! h)) (in_flight s) @ remaining s = drop (length (yielded s)) xs \<and>
      (\<forall>h \<in> set (in_flight s). h < length (tasks s)) \<and>
      yielded s = map f (take (length (yielded s)) xs) \<and>
      length (yielded s) \<le> length xs \<and>
      list_all (task_ok f) (tasks s) \<and>
      (\<forall>i < length (tasks s).
         (snd (tasks s ! i) = Pending \<longrightarrow> i \<in> set (queue s)) \<and>
         (snd (tasks s ! i) = Running \<longrightarrow> Some i \<in> set (workers s))))"

text \<open>The number of workers that hold a Task.\<close>

definition busy :: "nat option list \<Rightarrow> nat" where
  "busy ws = length (filter (\<lambda>w. w \<noteq> None) ws)"

text \<open>
  The steps still to come for the bulk submission: three for an input not yet submitted
  (dequeue, execute, yield), two for a Task in the queue, one for a Task with a worker,
  one for a handle not yet yielded. Every step other than a submission lowers it by one.
\<close>

definition potential :: "('a, 'e, 'r) Pool \<Rightarrow> nat" where
  "potential s =
     3 * length (remaining s) + 2 * length (queue s) + busy (workers s) + length (in_flight s)"

text \<open>The number of submissions by other callers in a schedule.\<close>

fun submissions :: "'a event list \<Rightarrow> nat" where
  "submissions [] = 0"
| "submissions (Submit x # evs) = Suc (submissions evs)"
| "submissions (ev # evs) = submissions evs"

text \<open>While inputs remain, the number of Tasks in flight is the watermark.\<close>

definition at_watermark :: "nat \<Rightarrow> ('a, 'e, 'r) Pool \<Rightarrow> bool" where
  "at_watermark watermark s = (remaining s \<noteq> [] \<longrightarrow> length (in_flight s) = watermark)"

section \<open>Callables and schedules used as examples\<close>

text \<open>
  A callable that hands out the elements of a list, one per call, and throws
  \<^verbatim>\<open>std::out_of_range\<close> on every call after the last element.
\<close>

definition list_producer :: "'a list \<Rightarrow> ('a list, 'a) Function" where
  "list_producer xs =
     Function (\<lambda>s. case s of [] \<Rightarrow> (Inl out_of_range, []) | x # r \<Rightarrow> (Inr x, r)) xs"

text \<open>
  The store after \<^verbatim>\<open>it == end\<close> on a new iterator over the one-element sequence 7:
  the value 7 is cached and the next call of the producer signals the end.
\<close>

definition cached_last :: "(nat list, nat) heap" where
  "cached_last =
     snd (operator_eq (Some 0) FunctionInputIterator_default
       (snd (FunctionInputIterator_from (list_producer [7]) empty_heap)))"

text \<open>
  A producer whose first call throws an exception that is not \<^verbatim>\<open>std::out_of_range\<close>, and
  whose later calls return 4.
\<close>

definition fails_once :: "(bool, nat) Function" where
  "fails_once =
     Function (\<lambda>failed. if failed then (Inr 4, True)
                         else (Inl (other_exception ''not ready''), True)) False"



text \<open>A consumer that appends every argument to the list it holds.\<close>

definition push_back :: "('b list, 'b) Function1" where
  "push_back = Function1 (\<lambda>s x. (None, s @ [x])) []"

text \<open>A callable that squares its argument and fails on 2.\<close>

definition square_unless_two :: "nat \<Rightarrow> string + nat" where
  "square_unless_two x = (if x = 2 then Inl ''two'' else Inr (x * x))"

text \<open>
  A schedule for three Tasks and two workers in which the second worker completes its
  Task before the first.
\<close>

definition out_of_order :: "nat event list" where
  "out_of_order =
     [Dequeue 0, Dequeue 1, Execute 1, Execute 0, Yield, Dequeue 1, Execute 1, Yield, Yield]"

text \<open>
  A schedule that submits two Tasks to a pool and lets its first worker take the first,
  which is the one that fails.
\<close>

definition one_worker :: "nat event list" where
  "one_worker = [Submit 2, Submit 3, Dequeue 0]"

section \<open>What each operation does to the store\<close>

text \<open>
  The calls of the producer change one \<^verbatim>\<open>Values\<close> object and leave the number of objects
  and every other object as they are.
\<close>

lemma Values_update_length [simp]:
  "length (Values_cells (Values_update a g h)) = length (Values_cells h)"
  by (simp add: Values_update_def)

lemma invoke_fun_length:
  "invoke_fun a h = (r, h1) \<Longrightarrow> length (Values_cells h1) = length (Values_cells h)"
  by (auto simp: invoke_fun_def split: prod.splits)

lemma invoke_fun_other:
  "invoke_fun a h = (r, h1) \<Longrightarrow> b \<noteq> a \<Longrightarrow> Values_cells h1 ! b = Values_cells h ! b"
  by (auto simp: invoke_fun_def Values_update_def split: prod.splits)

lemma fetch_fetched:
  "fetch a h = (None, h1) \<Longrightarrow> a < length (Values_cells h) \<Longrightarrow>
     v_last (Values_cells h1 ! a) \<or> v_value_valid (Values_cells h1 ! a)"
  by (auto simp: fetch_def Values_update_def dest: invoke_fun_length
      split: prod.splits sum.splits error.splits)

lemma fetch_other:
  "fetch a h = (r, h1) \<Longrightarrow> b \<noteq> a \<Longrightarrow> Values_cells h1 ! b = Values_cells h ! b"
  by (auto simp: fetch_def Values_update_def dest: invoke_fun_other
      split: prod.splits sum.splits error.splits)

lemma lookahead_fetched:
  "lookahead it h = (None, h1) \<Longrightarrow> \<not> dangling it h \<Longrightarrow> \<not> not_fetched it h1"
  by (auto simp: lookahead_def not_fetched_def dangling_def dest: fetch_fetched
      split: option.splits if_splits)

lemma lookahead_other:
  "lookahead it h = (r, h1) \<Longrightarrow> x \<noteq> it \<Longrightarrow> not_fetched x h1 = not_fetched x h"
  by (auto simp: lookahead_def not_fetched_def dest: fetch_other
      split: option.splits if_splits)

text \<open>The five ways through \<^verbatim>\<open>operator*\<close> on an iterator that points to an object.\<close>

lemma dereference_cached:
  assumes "a < length (Values_cells h)" "v_value_valid (Values_cells h ! a)"
  shows "dereference (Some a) h =
     (if v_last (Values_cells h ! a) then Inl out_of_range else Inr (v_value (Values_cells h ! a)),
      Values_update a (\<lambda>c. c\<lparr>v_value_valid := False\<rparr>) h)"
  using assms by (simp add: dereference_def Values_at_def throw_or_move_def Values_update_def)

lemma dereference_last:
  assumes "a < length (Values_cells h)" "\<not> v_value_valid (Values_cells h ! a)"
    "v_last (Values_cells h ! a)"
  shows "dereference (Some a) h = (Inl out_of_range, h)"
  using assms by (simp add: dereference_def Values_at_def throw_or_move_def)

lemma dereference_fetch_value:
  assumes "a < length (Values_cells h)" "\<not> v_value_valid (Values_cells h ! a)"
    "\<not> v_last (Values_cells h ! a)" "call (v_fun (Values_cells h ! a)) = (Inr x, f')"
  shows "dereference (Some a) h =
     (Inr (Some x),
      h\<lparr>Values_cells := (Values_cells h)[a := (Values_cells h ! a)\<lparr>v_fun := f', v_value := Some x\<rparr>],
        invoked := a # invoked h\<rparr>)"
  using assms
  by (simp add: dereference_def Values_at_def throw_or_move_def Values_update_def invoke_fun_def)

lemma dereference_fetch_end:
  assumes "a < length (Values_cells h)" "\<not> v_value_valid (Values_cells h ! a)"
    "\<not> v_last (Values_cells h ! a)" "call (v_fun (Values_cells h ! a)) = (Inl out_of_range, f')"
  shows "dereference (Some a) h =
     (Inl out_of_range,
      h\<lparr>Values_cells := (Values_cells h)[a := (Values_cells h ! a)\<lparr>v_fun := f', v_last := True\<rparr>],
        invoked := a # invoked h\<rparr>)"
  using assms
  by (simp add: dereference_def Values_at_def throw_or_move_def Values_update_def invoke_fun_def)

lemma dereference_fetch_other:
  assumes "a < length (Values_cells h)" "\<not> v_value_valid (Values_cells h ! a)"
    "\<not> v_last (Values_cells h ! a)" "call (v_fun (Values_cells h ! a)) = (Inl e, f')"
    "e \<noteq> out_of_range"
  shows "dereference (Some a) h =
     (Inl e,
      h\<lparr>Values_cells := (Values_cells h)[a := (Values_cells h ! a)\<lparr>v_fun := f'\<rparr>],
        invoked := a # invoked h\<rparr>)"
  using assms
  by (cases e) (simp_all add: dereference_def Values_at_def throw_or_move_def Values_update_def invoke_fun_def)

text \<open>The ways through the lookahead of \<^verbatim>\<open>operator==\<close>.\<close>

lemma lookahead_null [simp]: "lookahead None h = (None, h)"
  by (simp add: lookahead_def)

lemma lookahead_done:
  "v_last (Values_cells h ! a) \<or> v_value_valid (Values_cells h ! a) \<Longrightarrow>
     lookahead (Some a) h = (None, h)"
  by (simp add: lookahead_def)

lemma lookahead_not_needed: "\<not> not_fetched x h \<Longrightarrow> lookahead x h = (None, h)"
  by (cases x) (auto simp: not_fetched_def lookahead_def)

lemma lookahead_value:
  assumes "\<not> v_value_valid (Values_cells h ! a)" "\<not> v_last (Values_cells h ! a)"
    "call (v_fun (Values_cells h ! a)) = (Inr x, f')"
  shows "lookahead (Some a) h =
     (None,
      h\<lparr>Values_cells := (Values_cells h)[a := (Values_cells h ! a)
           \<lparr>v_fun := f', v_value := Some x, v_value_valid := True\<rparr>],
        invoked := a # invoked h\<rparr>)"
proof (cases "a < length (Values_cells h)")
  case True
  with assms show ?thesis
    by (simp add: lookahead_def fetch_def invoke_fun_def Values_update_def)
next
  case False
  with assms show ?thesis
    by (simp add: lookahead_def fetch_def invoke_fun_def Values_update_def list_update_beyond)
qed

lemma lookahead_end:
  assumes "\<not> v_value_valid (Values_cells h ! a)" "\<not> v_last (Values_cells h ! a)"
    "call (v_fun (Values_cells h ! a)) = (Inl out_of_range, f')"
  shows "lookahead (Some a) h =
     (None,
      h\<lparr>Values_cells := (Values_cells h)[a := (Values_cells h ! a)
           \<lparr>v_fun := f', v_last := True\<rparr>],
        invoked := a # invoked h\<rparr>)"
proof (cases "a < length (Values_cells h)")
  case True
  with assms show ?thesis
    by (simp add: lookahead_def fetch_def invoke_fun_def Values_update_def)
next
  case False
  with assms show ?thesis
    by (simp add: lookahead_def fetch_def invoke_fun_def Values_update_def list_update_beyond)
qed

lemma lookahead_other_exception:
  assumes "\<not> v_value_valid (Values_cells h ! a)" "\<not> v_last (Values_cells h ! a)"
    "call (v_fun (Values_cells h ! a)) = (Inl e, f')" "e \<noteq> out_of_range"
  shows "lookahead (Some a) h =
     (Some e,
      h\<lparr>Values_cells := (Values_cells h)[a := (Values_cells h ! a)\<lparr>v_fun := f'\<rparr>],
        invoked := a # invoked h\<rparr>)"
  using assms
  by (cases e; cases "a < length (Values_cells h)")
    (simp_all add: lookahead_def fetch_def invoke_fun_def Values_update_def list_update_beyond)

lemma lookahead_length:
  "lookahead it h = (r, h1) \<Longrightarrow> length (Values_cells h1) = length (Values_cells h)"
  by (auto simp: lookahead_def fetch_def dest: invoke_fun_length
      split: option.splits if_splits prod.splits sum.splits error.splits)

lemma lookahead_dangling:
  "lookahead it h = (r, h1) \<Longrightarrow> dangling x h1 = dangling x h"
  by (cases x) (auto simp: dangling_def dest: lookahead_length)


text \<open>\<^verbatim>\<open>operator==\<close> with the inner call written out: a lookahead on each side, then the comparison.\<close>

lemma equal_unfold:
  "operator_eq this x h =
     (if dangling this h \<or> dangling x h then (Inl undefined_behaviour, h)
      else
        (case lookahead this h of
           (Some e, h1) \<Rightarrow> (Inl e, h1)
         | (None, h1) \<Rightarrow>
             (case lookahead x h1 of
                (Some e, h2) \<Rightarrow> (Inl e, h2)
              | (None, h2) \<Rightarrow> (Inr (null_or_last this h2 = null_or_last x h2), h2))))"
proof (cases "dangling this h \<or> dangling x h")
  case True
  then show ?thesis by (subst operator_eq.simps) simp
next
  case nd: False
  obtain r h1 where la: "lookahead this h = (r, h1)" by (cases "lookahead this h")
  show ?thesis
  proof (cases r)
    case (Some e)
    with nd la show ?thesis by (subst operator_eq.simps) simp
  next
    case None
    note la = la[unfolded None]
    from la nd have f1: "\<not> not_fetched this h1" by (auto dest: lookahead_fetched)
    from la nd have nd1: "\<not> (dangling x h1 \<or> dangling this h1)"
      by (auto dest: lookahead_dangling)
    show ?thesis
    proof (cases "not_fetched x h1")
      case False
      with nd la show ?thesis
        by (subst operator_eq.simps) (simp add: lookahead_not_needed)
    next
      case True
      with f1 have ne: "this \<noteq> x" by auto
      obtain r2 h2 where la2: "lookahead x h1 = (r2, h2)" by (cases "lookahead x h1")
      from la2 ne f1 have f2: "\<not> not_fetched this h2" by (auto dest: lookahead_other)
      have inner: "operator_eq x this h1 =
          (case r2 of Some e \<Rightarrow> (Inl e, h2)
           | None \<Rightarrow> (Inr (null_or_last this h2 = null_or_last x h2), h2))"
        using nd1 la2 f2 by (subst operator_eq.simps) (auto split: option.splits)
      from nd la True show ?thesis
        by (subst operator_eq.simps) (simp add: inner la2)
    qed
  qed
qed

lemma new_iterator:
  "FunctionInputIterator_from f h = (it, h1) \<Longrightarrow>
     it = Some (length (Values_cells h)) \<and>
     h1 = h\<lparr>Values_cells := Values_cells h @
            [\<lparr>v_last = False, v_value_valid = False, v_fun = f, v_value = None\<rparr>]\<rparr>"
  by (auto simp: FunctionInputIterator_from_def new_Values_def)

text \<open>The equations that evaluate the operations on a concrete store.\<close>

lemmas eval_defs = FunctionInputIterator_from_def new_Values_def empty_heap_def
  equal_unfold lookahead_def fetch_def invoke_fun_def call_def list_producer_def
  Values_update_def dangling_def null_or_last_def dereference_def Values_at_def
  throw_or_move_def operator_neq_def FunctionInputIterator_default_def calls_def

section \<open>Copies of an iterator share one cursor\<close>

text \<open>
  Claim C1. Copying an iterator copies the pointer to the \<^verbatim>\<open>Values\<close> object and nothing
  else: the store, and with it the record of producer calls, is unchanged, so the copy
  neither calls nor resets the producer, and every operation through the copy is the
  operation through the original, on the same producer, cached value and end flag. At
  a position without lookahead, with a producer whose next two calls return \<open>x0\<close> and
  \<open>x1\<close>: dereferencing the copy returns \<open>x0\<close> and dereferencing the original afterwards
  returns \<open>x1\<close>, after two producer calls in all; and when the copy is compared with the
  end iterator instead, which caches \<open>x0\<close>, dereferencing the original returns that
  cached \<open>x0\<close>, after one producer call in all.
\<close>

theorem copy_shares_cursor:
  assumes copy: "FunctionInputIterator_copy it h = (c, h')"
    and obj: "it = Some a" "a < length (Values_cells h)"
    and fresh: "\<not> v_last (Values_cells h ! a)" "\<not> v_value_valid (Values_cells h ! a)"
    and c0: "call (v_fun (Values_cells h ! a)) = (Inr x0, f1)"
    and c1: "call f1 = (Inr x1, f2)"
  shows "h' = h \<and>
     (\<forall>g. dereference c g = dereference it g) \<and>
     (\<forall>g x. operator_eq c x g = operator_eq it x g \<and> operator_eq x c g = operator_eq x it g) \<and>
     fst (dereference c h') = Inr (Some x0) \<and>
     fst (dereference it (snd (dereference c h'))) = Inr (Some x1) \<and>
     invoked (snd (dereference it (snd (dereference c h')))) = a # a # invoked h \<and>
     fst (dereference it (snd (operator_eq c FunctionInputIterator_default h'))) = Inr (Some x0) \<and>
     invoked (snd (dereference it (snd (operator_eq c FunctionInputIterator_default h')))) =
       a # invoked h"
proof -
  from copy have c: "c = it" and h': "h' = h"
    by (auto simp: FunctionInputIterator_copy_def)
  let ?h3 = "h\<lparr>Values_cells := (Values_cells h)
             [a := (Values_cells h ! a)\<lparr>v_fun := f1, v_value := Some x0\<rparr>],
        invoked := a # invoked h\<rparr>"
  have d0: "dereference (Some a) h = (Inr (Some x0), ?h3)"
    using obj(2) fresh(2,1) c0 by (rule dereference_fetch_value)
  have d1: "dereference (Some a) ?h3 = (Inr (Some x1),
      ?h3\<lparr>Values_cells := (Values_cells ?h3)
             [a := (Values_cells ?h3 ! a)\<lparr>v_fun := f2, v_value := Some x1\<rparr>],
        invoked := a # invoked ?h3\<rparr>)"
    by (rule dereference_fetch_value) (use obj(2) fresh c1 in simp_all)
  let ?g = "h\<lparr>Values_cells := (Values_cells h)[a := (Values_cells h ! a)
           \<lparr>v_fun := f1, v_value := Some x0, v_value_valid := True\<rparr>],
        invoked := a # invoked h\<rparr>"
  have la: "lookahead (Some a) h = (None, ?g)"
    using c0 by (rule lookahead_value[OF fresh(2) fresh(1)])
  have e: "operator_eq (Some a) FunctionInputIterator_default h = (Inr False, ?g)"
    using obj(2) fresh la
    by (simp add: equal_unfold dangling_def FunctionInputIterator_default_def null_or_last_def)
  have d2: "dereference (Some a) ?g =
      (Inr (Some x0), Values_update a (\<lambda>c. c\<lparr>v_value_valid := False\<rparr>) ?g)"
    using obj(2) fresh by (simp add: dereference_cached)
  show ?thesis
    by (simp add: c h' obj(1) d0 d1 e d2) (simp add: Values_update_def)
qed

text \<open>
  A producer of the values 3 and 5: the copy reads 3 and the original then reads 5; or
  the copy is compared with the end and the original then reads 3.
\<close>

theorem copy_shares_cursor_witness:
  "fst (dereference (Some 0)
      (snd (FunctionInputIterator_from (list_producer [3, 5::nat]) empty_heap))) = Inr (Some 3) \<and>
   fst (dereference (Some 0) (snd (dereference (Some 0)
      (snd (FunctionInputIterator_from (list_producer [3, 5::nat]) empty_heap))))) = Inr (Some 5) \<and>
   fst (dereference (Some 0) (snd (operator_eq (Some 0) FunctionInputIterator_default
      (snd (FunctionInputIterator_from (list_producer [3, 5::nat]) empty_heap))))) = Inr (Some 3)"
proof -
  let ?h = "snd (FunctionInputIterator_from (list_producer [3, 5::nat]) empty_heap)"
  have copy: "FunctionInputIterator_copy (Some 0) ?h = (Some 0, ?h)"
    by (simp add: FunctionInputIterator_copy_def)
  have obj: "0 < length (Values_cells ?h)"
    and fresh: "\<not> v_last (Values_cells ?h ! 0)" "\<not> v_value_valid (Values_cells ?h ! 0)"
    and c0: "call (v_fun (Values_cells ?h ! 0)) = (Inr 3, list_producer [5])"
    and c1: "call (list_producer [5::nat]) = (Inr 5, list_producer [])"
    by (simp_all add: eval_defs)
  from copy_shares_cursor [OF copy refl obj fresh c0 c1] show ?thesis by simp
qed

section \<open>Dereferencing at the end\<close>

text \<open>
  Claim C9, as stated, fails: with the last value cached by a comparison, the producer
  signals the end on its next call, and the dereference returns the cached value.
\<close>

theorem dereference_cached_before_end_counterexample:
  "fst (call (v_fun (Values_cells cached_last ! 0))) = Inl out_of_range \<and>
   fst (dereference (Some 0) cached_last) = Inr (Some 7)"
  by (simp add: cached_last_def eval_defs)

text \<open>
  Claim C9, amended. For an iterator that points to a \<^verbatim>\<open>Values\<close> object: when the
  producer has signalled the end (\<^verbatim>\<open>last\<close> is set), or when no lookahead value is cached
  and the producer signals the end on the call that the dereference makes, the
  dereference throws \<^verbatim>\<open>std::out_of_range\<close>; it returns no value and is not undefined.
  When a lookahead value is cached and the end has not been signalled, the dereference
  returns the cached value.
\<close>

theorem dereference_past_end:
  assumes "a < length (Values_cells h)"
  shows "(v_last (Values_cells h ! a) \<or>
          (\<not> v_value_valid (Values_cells h ! a) \<and>
           fst (call (v_fun (Values_cells h ! a))) = Inl out_of_range) \<longrightarrow>
            fst (dereference (Some a) h) = Inl out_of_range) \<and>
         (v_value_valid (Values_cells h ! a) \<and> \<not> v_last (Values_cells h ! a) \<longrightarrow>
            fst (dereference (Some a) h) = Inr (v_value (Values_cells h ! a)))"
proof (cases "v_value_valid (Values_cells h ! a)")
  case True
  with assms show ?thesis by (simp add: dereference_cached)
next
  case nv: False
  show ?thesis
  proof (cases "v_last (Values_cells h ! a)")
    case True
    with nv assms show ?thesis by (simp add: dereference_last)
  next
    case False
    show ?thesis
    proof (cases "fst (call (v_fun (Values_cells h ! a))) = Inl out_of_range")
      case True
      then obtain f' where "call (v_fun (Values_cells h ! a)) = (Inl out_of_range, f')"
        by (cases "call (v_fun (Values_cells h ! a))") auto
      with False nv assms show ?thesis by (simp add: dereference_fetch_end)
    next
      case False
      with nv \<open>\<not> v_last (Values_cells h ! a)\<close> show ?thesis by simp
    qed
  qed
qed

text \<open>
  The hypotheses hold for the new iterator over the empty sequence (no cached value, the
  first producer call signals the end), for the same iterator dereferenced once
  (\<^verbatim>\<open>last\<close> is set), and for the iterator over the one-element sequence 7 after a
  comparison (7 is cached).
\<close>

theorem dereference_past_end_witness:
  "fst (dereference (Some 0)
     (snd (FunctionInputIterator_from (list_producer ([]::nat list)) empty_heap)))
     = Inl out_of_range \<and>
   v_last (Values_cells (snd (dereference (Some 0)
     (snd (FunctionInputIterator_from (list_producer ([]::nat list)) empty_heap)))) ! 0) \<and>
   fst (dereference (Some 0) (snd (dereference (Some 0)
     (snd (FunctionInputIterator_from (list_producer ([]::nat list)) empty_heap)))))
     = Inl out_of_range \<and>
   v_value_valid (Values_cells cached_last ! 0) \<and>
   fst (dereference (Some 0) cached_last) = Inr (Some 7)"
proof -
  let ?h = "snd (FunctionInputIterator_from (list_producer ([]::nat list)) empty_heap)"
  let ?h' = "snd (dereference (Some 0) ?h)"
  have v: "0 < length (Values_cells ?h)" "0 < length (Values_cells ?h')"
    "0 < length (Values_cells cached_last)"
    by (simp_all add: eval_defs cached_last_def)
  have e: "\<not> v_value_valid (Values_cells ?h ! 0) \<and>
      fst (call (v_fun (Values_cells ?h ! 0))) = Inl out_of_range"
    by (simp add: eval_defs)
  have l: "v_last (Values_cells ?h' ! 0)"
    by (simp add: eval_defs)
  have c: "v_value_valid (Values_cells cached_last ! 0) \<and> \<not> v_last (Values_cells cached_last ! 0)"
    "v_value (Values_cells cached_last ! 0) = Some 7"
    by (simp_all add: eval_defs cached_last_def)
  from dereference_past_end [OF v(1)] dereference_past_end [OF v(2)]
    dereference_past_end [OF v(3)] e l c
  show ?thesis by simp
qed

section \<open>Once the producer has signalled the end\<close>

text \<open>
  No operation clears the \<^verbatim>\<open>last\<close> flag of an object, and no operation calls the producer
  of an object whose flag is set.
\<close>

lemma lookahead_frame:
  "lookahead it h = (r, h1) \<Longrightarrow> it \<noteq> Some a \<Longrightarrow>
     Values_cells h1 ! a = Values_cells h ! a \<and> calls h1 a = calls h a"
  by (auto simp: lookahead_def fetch_def invoke_fun_def Values_update_def calls_def
      split: option.splits if_splits prod.splits sum.splits error.splits)

lemma lookahead_exhausted: "v_last (Values_cells h ! a) \<Longrightarrow> lookahead (Some a) h = (None, h)"
  by (simp add: lookahead_def)

lemma lookahead_keeps_exhausted:
  assumes "exhausted h a" "lookahead it h = (r, h1)"
  shows "exhausted h1 a \<and> calls h1 a = calls h a"
proof (cases "it = Some a")
  case True
  with assms show ?thesis by (simp add: exhausted_def lookahead_exhausted)
next
  case False
  with assms lookahead_frame[of it h r h1 a] lookahead_length[of it h r h1]
  show ?thesis by (simp add: exhausted_def)
qed

lemma equal_keeps_exhausted:
  assumes "exhausted h a" "operator_eq x y h = (r, h1)"
  shows "exhausted h1 a \<and> calls h1 a = calls h a"
proof (cases "dangling x h \<or> dangling y h")
  case True
  with assms show ?thesis by (auto simp: equal_unfold)
next
  case False
  obtain r1 g1 where l1: "lookahead x h = (r1, g1)" by (cases "lookahead x h")
  obtain r2 g2 where l2: "lookahead y g1 = (r2, g2)" by (cases "lookahead y g1")
  from assms(1) l1 have e1: "exhausted g1 a \<and> calls g1 a = calls h a"
    by (rule lookahead_keeps_exhausted)
  with l2 have e2: "exhausted g2 a \<and> calls g2 a = calls h a"
    using lookahead_keeps_exhausted[of g1 a y r2 g2] by simp
  from assms(2) False l1 l2 have "h1 = g1 \<or> h1 = g2"
    by (auto simp: equal_unfold split: option.splits)
  with e1 e2 show ?thesis by auto
qed

lemma dereference_frame:
  "dereference it h = (r, h1) \<Longrightarrow> it \<noteq> Some a \<Longrightarrow>
     Values_cells h1 ! a = Values_cells h ! a \<and> calls h1 a = calls h a"
  by (auto simp: dereference_def Values_at_def throw_or_move_def invoke_fun_def
        Values_update_def calls_def
      split: option.splits if_splits prod.splits sum.splits error.splits)

lemma dereference_length:
  "dereference it h = (r, h1) \<Longrightarrow> length (Values_cells h1) = length (Values_cells h)"
  by (auto simp: dereference_def Values_at_def throw_or_move_def invoke_fun_def
        Values_update_def
      split: option.splits if_splits prod.splits sum.splits error.splits)

lemma dereference_exhausted:
  assumes "exhausted h a"
  shows "fst (dereference (Some a) h) = Inl out_of_range \<and>
     exhausted (snd (dereference (Some a) h)) a \<and>
     invoked (snd (dereference (Some a) h)) = invoked h"
  using assms
  by (cases "v_value_valid (Values_cells h ! a)")
     (simp_all add: exhausted_def dereference_cached dereference_last Values_update_def)

lemma dereference_keeps_exhausted:
  assumes "exhausted h a" "dereference it h = (r, h1)"
  shows "exhausted h1 a \<and> calls h1 a = calls h a"
proof (cases "it = Some a")
  case True
  with assms dereference_exhausted[of h a] show ?thesis by (simp add: calls_def)
next
  case False
  with assms dereference_frame[of it h r h1 a] dereference_length[of it h r h1]
  show ?thesis by (simp add: exhausted_def)
qed

lemma new_keeps_exhausted:
  assumes "exhausted h a"
  shows "exhausted (snd (FunctionInputIterator_from f h)) a \<and>
    calls (snd (FunctionInputIterator_from f h)) a = calls h a"
  using assms
  by (simp add: exhausted_def FunctionInputIterator_from_def new_Values_def calls_def nth_append)

lemma snd_not_equal [simp]: "snd (operator_neq x y h) = snd (operator_eq x y h)"
  by (simp add: operator_neq_def split: prod.splits sum.splits)

lemma fst_not_equal:
  "fst (operator_neq x y h) = (case fst (operator_eq x y h) of Inl e \<Rightarrow> Inl e | Inr b \<Rightarrow> Inr (\<not> b))"
  by (simp add: operator_neq_def split: prod.splits sum.splits)

lemma snd_range_begin:
  "snd (range_begin r h) =
     (case r of
        None \<Rightarrow> h
      | Some p \<Rightarrow>
          if p < length (Function_cells h)
          then snd (FunctionInputIterator_from (Function_cells h ! p) h) else h)"
  by (simp add: range_begin_def split: option.splits prod.splits)

lemma perform_keeps_exhausted:
  assumes "exhausted h a"
  shows "exhausted (perform op h) a \<and> calls (perform op h) a = calls h a"
proof (cases op)
  case (Dereference it)
  with assms dereference_keeps_exhausted[of h a it "fst (dereference it h)" "snd (dereference it h)"]
  show ?thesis by simp
next
  case (Equal x y)
  with assms equal_keeps_exhausted[of h a x y "fst (operator_eq x y h)" "snd (operator_eq x y h)"]
  show ?thesis by simp
next
  case (Not_equal x y)
  with assms equal_keeps_exhausted[of h a x y "fst (operator_eq x y h)" "snd (operator_eq x y h)"]
  show ?thesis by simp
next
  case (Increment it)
  with assms show ?thesis by (simp add: increment_def)
next
  case (Copy it)
  with assms show ?thesis by (simp add: FunctionInputIterator_copy_def)
next
  case (Construct f)
  with assms new_keeps_exhausted[of h a f] show ?thesis by simp
next
  case (Make_range f)
  with assms show ?thesis
    by (simp add: make_function_input_range_def FunctionInputIteratorRange_from_def
        exhausted_def calls_def)
next
  case (Begin r)
  with assms new_keeps_exhausted[of h a] show ?thesis
    by (simp add: snd_range_begin split: option.splits)
qed

lemma perform_all_keeps_exhausted:
  "exhausted h a \<Longrightarrow>
     exhausted (perform_all ops h) a \<and> calls (perform_all ops h) a = calls h a"
proof (induction ops arbitrary: h)
  case Nil
  then show ?case by (simp add: perform_all_def)
next
  case (Cons op ops)
  from Cons.prems have "exhausted (perform op h) a \<and> calls (perform op h) a = calls h a"
    by (rule perform_keeps_exhausted)
  with Cons.IH[of "perform op h"] show ?case by (simp add: perform_all_def)
qed

lemma equal_end_exhausted:
  assumes "exhausted h a"
  shows "operator_eq (Some a) FunctionInputIterator_default h = (Inr True, h)"
  using assms
  by (simp add: equal_unfold exhausted_def dangling_def lookahead_exhausted
      FunctionInputIterator_default_def null_or_last_def)

text \<open>
  Claim C2. Take a \<^verbatim>\<open>Values\<close> object that has no lookahead and is not at the end, and
  whose producer signals the end on its next call, and let that call happen in a
  dereference or in a comparison \<^verbatim>\<open>it == x\<close>. The flag \<^verbatim>\<open>last\<close> is then set and the
  producer has been called once. After any further operations of any kind, on this
  iterator, its copies or any other iterator or range, the comparison with the end
  iterator still answers true (\<^verbatim>\<open>!=\<close> answers false), a dereference throws
  \<^verbatim>\<open>std::out_of_range\<close>, and the number of calls of the producer is still the one call
  that signalled the end.
\<close>

theorem end_is_final:
  assumes valid: "a < length (Values_cells h)"
    and fresh: "\<not> v_last (Values_cells h ! a)" "\<not> v_value_valid (Values_cells h ! a)"
    and signal: "fst (call (v_fun (Values_cells h ! a))) = Inl out_of_range"
    and h1: "h1 = snd (dereference (Some a) h) \<or>
             (\<not> dangling x h \<and> h1 = snd (operator_eq (Some a) x h))"
  shows "v_last (Values_cells h1 ! a) \<and> calls h1 a = calls h a + 1 \<and>
     (\<forall>ops. fst (operator_eq (Some a) FunctionInputIterator_default (perform_all ops h1)) = Inr True \<and>
            fst (operator_neq (Some a) FunctionInputIterator_default (perform_all ops h1)) = Inr False \<and>
            fst (dereference (Some a) (perform_all ops h1)) = Inl out_of_range \<and>
            calls (perform_all ops h1) a = calls h a + 1)"
proof -
  obtain f' where c: "call (v_fun (Values_cells h ! a)) = (Inl out_of_range, f')"
    using signal by (cases "call (v_fun (Values_cells h ! a))") auto
  let ?g = "h\<lparr>Values_cells := (Values_cells h)[a := (Values_cells h ! a)
           \<lparr>v_fun := f', v_last := True\<rparr>], invoked := a # invoked h\<rparr>"
  have g: "exhausted ?g a \<and> calls ?g a = calls h a + 1"
    using valid by (simp add: exhausted_def calls_def)
  have e: "exhausted h1 a \<and> calls h1 a = calls h a + 1"
    using h1
  proof
    assume "h1 = snd (dereference (Some a) h)"
    with valid fresh c g show ?thesis by (simp add: dereference_fetch_end)
  next
    assume x: "\<not> dangling x h \<and> h1 = snd (operator_eq (Some a) x h)"
    have la: "lookahead (Some a) h = (None, ?g)"
      using c by (rule lookahead_end[OF fresh(2) fresh(1)])
    obtain r2 g2 where l2: "lookahead x ?g = (r2, g2)" by (cases "lookahead x ?g")
    from g l2 have "exhausted g2 a \<and> calls g2 a = calls ?g a"
      using lookahead_keeps_exhausted[of ?g a x r2 g2] by simp
    moreover from x valid la l2 have "h1 = g2"
      by (auto simp: equal_unfold dangling_def split: option.splits)
    ultimately show ?thesis using g by simp
  qed
  have "\<And>ops. exhausted (perform_all ops h1) a \<and> calls (perform_all ops h1) a = calls h a + 1"
    using e perform_all_keeps_exhausted[of h1 a] by simp
  then show ?thesis
    using e by (simp add: exhausted_def[symmetric] equal_end_exhausted fst_not_equal dereference_exhausted) (simp add: exhausted_def)
qed

text \<open>
  The hypotheses hold for a new iterator over the empty sequence, with the end met by a
  dereference or by a comparison, and the conclusion covers a caller who goes on
  comparing and dereferencing and makes another iterator.
\<close>

theorem end_is_final_witness:
  "calls (snd (FunctionInputIterator_from (list_producer ([]::nat list)) empty_heap)) 0 = 0 \<and>
   calls (perform_all
       [Equal (Some 0) None, Dereference (Some 0), Construct (list_producer [1]),
        Dereference (Some 1), Not_equal (Some 0) (Some 1)]
       (snd (dereference (Some 0)
          (snd (FunctionInputIterator_from (list_producer ([]::nat list)) empty_heap))))) 0 = 1 \<and>
   fst (operator_eq (Some 0) FunctionInputIterator_default (perform_all
       [Equal (Some 0) None, Dereference (Some 0), Construct (list_producer [1]),
        Dereference (Some 1), Not_equal (Some 0) (Some 1)]
       (snd (dereference (Some 0)
          (snd (FunctionInputIterator_from (list_producer ([]::nat list)) empty_heap)))))) = Inr True \<and>
   calls (perform_all [Dereference (Some 0), Copy (Some 0), Equal None (Some 0)]
       (snd (operator_eq (Some 0) None
          (snd (FunctionInputIterator_from (list_producer ([]::nat list)) empty_heap))))) 0 = 1"
proof -
  let ?h = "snd (FunctionInputIterator_from (list_producer ([]::nat list)) empty_heap)"
  let ?h1 = "snd (dereference (Some 0) ?h)"
  let ?h2 = "snd (operator_eq (Some 0) None ?h)"
  have valid: "0 < length (Values_cells ?h)"
    and fresh: "\<not> v_last (Values_cells ?h ! 0)" "\<not> v_value_valid (Values_cells ?h ! 0)"
    and signal: "fst (call (v_fun (Values_cells ?h ! 0))) = Inl out_of_range"
    and zero: "calls ?h 0 = 0"
    by (simp_all add: eval_defs)
  have h1: "?h1 = snd (dereference (Some 0) ?h) \<or>
      (\<not> dangling None ?h \<and> ?h1 = snd (operator_eq (Some 0) None ?h))"
    by simp
  have h2: "?h2 = snd (dereference (Some 0) ?h) \<or>
      (\<not> dangling None ?h \<and> ?h2 = snd (operator_eq (Some 0) None ?h))"
    by (simp add: dangling_def)
  from end_is_final [OF valid fresh signal h1] end_is_final [OF valid fresh signal h2] zero
  show ?thesis
    by simp
qed

section \<open>One lookahead per position\<close>

lemma funpow_fixed: "F x = x \<Longrightarrow> (F ^^ n) x = x"
  by (induction n) simp_all

lemma operator_eq_end_calls:
  assumes "a < length (Values_cells h)"
    "\<not> v_last (Values_cells h ! a)" "\<not> v_value_valid (Values_cells h ! a)"
  shows "calls (snd (operator_eq (Some a) FunctionInputIterator_default h)) a = calls h a + 1"
proof -
  obtain r f' where c: "call (v_fun (Values_cells h ! a)) = (r, f')"
    by (cases "call (v_fun (Values_cells h ! a))")
  have "calls (snd (lookahead (Some a) h)) a = calls h a + 1"
    using assms c
    by (cases r)
       (auto simp: lookahead_def fetch_def invoke_fun_def Values_update_def calls_def
          split: error.splits)
  moreover have "snd (operator_eq (Some a) FunctionInputIterator_default h) =
      snd (lookahead (Some a) h)"
    using assms(1)
    by (auto simp: equal_unfold dangling_def FunctionInputIterator_default_def
        split: prod.splits option.splits)
  ultimately show ?thesis by simp
qed

text \<open>
  Claim C3, as stated, fails: a producer whose first call throws an exception other
  than \<^verbatim>\<open>std::out_of_range\<close> leaves no lookahead behind, and the second comparison at the
  same position, with no dereference between the two, calls the producer again.
\<close>

theorem lookahead_repeated_after_exception_counterexample:
  "fst (operator_eq (Some 0) FunctionInputIterator_default
      (snd (FunctionInputIterator_from fails_once empty_heap))) =
     Inl (other_exception ''not ready'') \<and>
   calls (snd (FunctionInputIterator_from fails_once empty_heap)) 0 = 0 \<and>
   calls (snd (operator_eq (Some 0) FunctionInputIterator_default
      (snd (FunctionInputIterator_from fails_once empty_heap)))) 0 = 1 \<and>
   calls (snd (operator_eq (Some 0) FunctionInputIterator_default
      (snd (operator_eq (Some 0) FunctionInputIterator_default
         (snd (FunctionInputIterator_from fails_once empty_heap)))))) 0 = 2"
  by (simp add: eval_defs fails_once_def)

text \<open>
  Claim C3, amended. At a position without lookahead the first comparison with the end
  iterator calls the producer once. When that call returns a value \<open>x\<close> or signals the
  end, the comparison answers whether the end was signalled, every repeated comparison
  answers the same and leaves the store as it is, so it calls nothing, and when the
  producer has returned \<open>x\<close>, the value is cached and the next dereference returns
  exactly \<open>x\<close> and calls nothing either. When the call throws any other exception, the
  exception leaves the comparison, nothing is cached and no flag is set, and the next
  comparison calls the producer again.
\<close>

theorem lookahead_once_per_position:
  assumes valid: "a < length (Values_cells h)"
    and fresh: "\<not> v_last (Values_cells h ! a)" "\<not> v_value_valid (Values_cells h ! a)"
    and ret: "call (v_fun (Values_cells h ! a)) = (r, f')"
    and h1: "h1 = snd (operator_eq (Some a) FunctionInputIterator_default h)"
  shows "calls h1 a = calls h a + 1 \<and>
     (r = Inr x \<or> r = Inl out_of_range \<longrightarrow>
        fst (operator_eq (Some a) FunctionInputIterator_default h) = Inr (r = Inl out_of_range) \<and>
        operator_eq (Some a) FunctionInputIterator_default h1 = (Inr (r = Inl out_of_range), h1) \<and>
        (\<forall>n. ((\<lambda>g. snd (operator_eq (Some a) FunctionInputIterator_default g)) ^^ n) h1 = h1)) \<and>
     (r = Inr x \<longrightarrow>
        v_value_valid (Values_cells h1 ! a) \<and> v_value (Values_cells h1 ! a) = Some x \<and>
        fst (dereference (Some a) h1) = Inr (Some x) \<and>
        invoked (snd (dereference (Some a) h1)) = invoked h1) \<and>
     (\<forall>e. r = Inl e \<and> e \<noteq> out_of_range \<longrightarrow>
        fst (operator_eq (Some a) FunctionInputIterator_default h) = Inl e \<and>
        \<not> v_last (Values_cells h1 ! a) \<and> \<not> v_value_valid (Values_cells h1 ! a) \<and>
        v_fun (Values_cells h1 ! a) = f' \<and>
        calls (snd (operator_eq (Some a) FunctionInputIterator_default h1)) a = calls h a + 2)"
proof -
  let ?end = "FunctionInputIterator_default"
  have once: "calls h1 a = calls h a + 1"
    unfolding h1 using valid fresh by (rule operator_eq_end_calls)
  consider (val) "r = Inr x" | (fin) "r = Inl out_of_range"
    | (exn) e where "r = Inl e" "e \<noteq> out_of_range" | (other) y where "r = Inr y" "y \<noteq> x"
    by (cases r) auto
  then show ?thesis
  proof cases
    case val
    let ?g = "h\<lparr>Values_cells := (Values_cells h)[a := (Values_cells h ! a)
           \<lparr>v_fun := f', v_value := Some x, v_value_valid := True\<rparr>],
        invoked := a # invoked h\<rparr>"
    have la: "lookahead (Some a) h = (None, ?g)"
      using ret[unfolded val] by (rule lookahead_value[OF fresh(2) fresh(1)])
    have first: "operator_eq (Some a) ?end h = (Inr False, ?g)"
      using valid fresh la
      by (simp add: equal_unfold dangling_def FunctionInputIterator_default_def null_or_last_def)
    with h1 have g: "h1 = ?g" by simp
    have again: "operator_eq (Some a) ?end ?g = (Inr False, ?g)"
      using valid fresh
      by (simp add: equal_unfold dangling_def FunctionInputIterator_default_def null_or_last_def
          lookahead_done)
    have d: "dereference (Some a) ?g =
        (Inr (Some x), Values_update a (\<lambda>c. c\<lparr>v_value_valid := False\<rparr>) ?g)"
      using valid fresh by (simp add: dereference_cached)
    show ?thesis
      unfolding g using valid
      by (simp add: first again funpow_fixed d val) (simp add: calls_def Values_update_def)
  next
    case fin
    let ?g = "h\<lparr>Values_cells := (Values_cells h)[a := (Values_cells h ! a)
           \<lparr>v_fun := f', v_last := True\<rparr>], invoked := a # invoked h\<rparr>"
    have la: "lookahead (Some a) h = (None, ?g)"
      using ret[unfolded fin] by (rule lookahead_end[OF fresh(2) fresh(1)])
    have first: "operator_eq (Some a) ?end h = (Inr True, ?g)"
      using valid fresh la
      by (simp add: equal_unfold dangling_def FunctionInputIterator_default_def null_or_last_def)
    with h1 have g: "h1 = ?g" by simp
    have again: "operator_eq (Some a) ?end ?g = (Inr True, ?g)"
      using valid
      by (simp add: equal_unfold dangling_def FunctionInputIterator_default_def null_or_last_def
          lookahead_done)
    show ?thesis
      unfolding g using valid
      by (simp add: first again funpow_fixed fin) (simp add: calls_def)
  next
    case exn
    let ?g = "h\<lparr>Values_cells := (Values_cells h)[a := (Values_cells h ! a)\<lparr>v_fun := f'\<rparr>],
        invoked := a # invoked h\<rparr>"
    have la: "lookahead (Some a) h = (Some e, ?g)"
      using fresh(2) fresh(1) ret[unfolded exn(1)] exn(2) by (rule lookahead_other_exception)
    have first: "operator_eq (Some a) ?end h = (Inl e, ?g)"
      using valid la
      by (simp add: equal_unfold dangling_def FunctionInputIterator_default_def)
    with h1 have g: "h1 = ?g" by simp
    have "calls (snd (operator_eq (Some a) ?end ?g)) a = calls ?g a + 1"
      by (rule operator_eq_end_calls) (use valid fresh in simp_all)
    then have second: "calls (snd (operator_eq (Some a) ?end ?g)) a = calls h a + 2"
      by (simp add: calls_def)
    from once show ?thesis
      unfolding g using valid fresh second
      by (simp add: first exn)
  next
    case other
    with once show ?thesis by simp
  qed
qed

text \<open>
  A new iterator over the one-element sequence 4, where the lookahead caches 4; a new
  iterator over the empty sequence, where the lookahead meets the end; and a new
  iterator over a producer whose first call throws another exception.
\<close>

theorem lookahead_once_per_position_witness:
  "fst (operator_eq (Some 0) FunctionInputIterator_default
     (snd (FunctionInputIterator_from (list_producer [4::nat]) empty_heap))) = Inr False \<and>
   calls (snd (operator_eq (Some 0) FunctionInputIterator_default
     (snd (FunctionInputIterator_from (list_producer [4::nat]) empty_heap)))) 0 = 1 \<and>
   fst (dereference (Some 0) (snd (operator_eq (Some 0) FunctionInputIterator_default
     (snd (FunctionInputIterator_from (list_producer [4::nat]) empty_heap))))) = Inr (Some 4) \<and>
   fst (operator_eq (Some 0) FunctionInputIterator_default
     (snd (FunctionInputIterator_from (list_producer ([]::nat list)) empty_heap))) = Inr True \<and>
   calls (snd (operator_eq (Some 0) FunctionInputIterator_default
     (snd (FunctionInputIterator_from (list_producer ([]::nat list)) empty_heap)))) 0 = 1 \<and>
   fst (operator_eq (Some 0) FunctionInputIterator_default
     (snd (FunctionInputIterator_from fails_once empty_heap))) =
     Inl (other_exception ''not ready'') \<and>
   calls (snd (operator_eq (Some 0) FunctionInputIterator_default
     (snd (operator_eq (Some 0) FunctionInputIterator_default
        (snd (FunctionInputIterator_from fails_once empty_heap)))))) 0 = 2"
proof -
  let ?h = "snd (FunctionInputIterator_from (list_producer [4::nat]) empty_heap)"
  let ?e = "snd (FunctionInputIterator_from (list_producer ([]::nat list)) empty_heap)"
  let ?x = "snd (FunctionInputIterator_from fails_once empty_heap)"
  have valid: "0 < length (Values_cells ?h)"
    and fresh: "\<not> v_last (Values_cells ?h ! 0)" "\<not> v_value_valid (Values_cells ?h ! 0)"
    and ret: "call (v_fun (Values_cells ?h ! 0)) = (Inr 4, list_producer [])"
    and zero: "calls ?h 0 = 0"
    by (simp_all add: eval_defs)
  have valid': "0 < length (Values_cells ?e)"
    and fresh': "\<not> v_last (Values_cells ?e ! 0)" "\<not> v_value_valid (Values_cells ?e ! 0)"
    and ret': "call (v_fun (Values_cells ?e ! 0)) = (Inl out_of_range, list_producer [])"
    and zero': "calls ?e 0 = 0"
    by (simp_all add: eval_defs)
  have valid'': "0 < length (Values_cells ?x)"
    and fresh'': "\<not> v_last (Values_cells ?x ! 0)" "\<not> v_value_valid (Values_cells ?x ! 0)"
    and ret'': "call (v_fun (Values_cells ?x ! 0)) =
      (Inl (other_exception ''not ready''), Function (code fails_once) True)"
    and zero'': "calls ?x 0 = 0"
    by (simp_all add: eval_defs fails_once_def)
  from lookahead_once_per_position [OF valid fresh ret refl, of 4]
    lookahead_once_per_position [OF valid' fresh' ret' refl, of 0]
    lookahead_once_per_position [OF valid'' fresh'' ret'' refl, of 0]
    zero zero' zero''
  show ?thesis
    by simp
qed

section \<open>Equality compares end status\<close>







section \<open>Iterators from separate calls of \<^verbatim>\<open>begin()\<close>\<close>



text \<open>
  A dereference changes the one object its iterator points to, whatever the callable
  does to the data it reaches.
\<close>

lemma call_ref_by_value:
  "call_ref (by_value f) g = (case call f of (r, f') \<Rightarrow> (r, by_value f', g))"
  by (simp add: call_ref_def by_value_def call_def split: prod.splits)







text \<open>
  On callables that own their state, the operations of this section are the operations
  of the sections above.
\<close>

lemma dereference_ref_by_value:
  "dereference_ref it (with_referenced g h) =
     (fst (dereference it h), with_referenced g (snd (dereference it h)))"
  by (auto simp: dereference_ref_def dereference_def Values_at_def with_referenced_def
        throw_or_move_ref_def throw_or_move_def invoke_fun_ref_def invoke_fun_def
        Values_ref_update_def Values_update_def call_ref_by_value map_update
      split: option.splits prod.splits sum.splits error.splits)

lemma range_begin_ref_by_value:
  "range_begin_ref r (with_referenced g h) =
     (fst (range_begin r h), with_referenced g (snd (range_begin r h)))"
  by (auto simp: range_begin_ref_def range_begin_def with_referenced_def new_Values_ref_def
        FunctionInputIterator_from_def new_Values_def
      split: option.splits prod.splits)

section \<open>Iterating to the end\<close>

lemma collect_from:
  assumes "a < length (Values_cells h)"
    "\<not> v_last (Values_cells h ! a)" "\<not> v_value_valid (Values_cells h ! a)"
    "returns (v_fun (Values_cells h ! a)) xs = Some f'"
    "fst (call f') = Inl out_of_range"
  shows "\<exists>h'. collect (Some a) FunctionInputIterator_default out h = Some (Inr (out @ map Some xs), h') \<and>
     calls h' a = calls h a + length xs + 1 \<and> v_last (Values_cells h' ! a)"
  using assms
proof (induction xs arbitrary: h out)
  case Nil
  then obtain f2 where c: "call (v_fun (Values_cells h ! a)) = (Inl out_of_range, f2)"
    by (cases "call (v_fun (Values_cells h ! a))") auto
  let ?g = "h\<lparr>Values_cells := (Values_cells h)[a := (Values_cells h ! a)
           \<lparr>v_fun := f2, v_last := True\<rparr>], invoked := a # invoked h\<rparr>"
  have la: "lookahead (Some a) h = (None, ?g)"
    using c by (rule lookahead_end[OF Nil.prems(3) Nil.prems(2)])
  have "operator_neq (Some a) FunctionInputIterator_default h = (Inr False, ?g)"
    using Nil.prems(1) la
    by (simp add: operator_neq_def equal_unfold dangling_def FunctionInputIterator_default_def
        null_or_last_def)
  then show ?case
    using Nil.prems(1) by (subst collect.simps) (simp add: calls_def)
next
  case (Cons x xs)
  from Cons.prems(4) obtain f1 where c: "call (v_fun (Values_cells h ! a)) = (Inr x, f1)"
    and r: "returns f1 xs = Some f'"
    by (auto split: prod.splits sum.splits if_splits)
  let ?g = "h\<lparr>Values_cells := (Values_cells h)[a := (Values_cells h ! a)
           \<lparr>v_fun := f1, v_value := Some x, v_value_valid := True\<rparr>],
        invoked := a # invoked h\<rparr>"
  let ?k = "Values_update a (\<lambda>c. c\<lparr>v_value_valid := False\<rparr>) ?g"
  have la: "lookahead (Some a) h = (None, ?g)"
    using c by (rule lookahead_value[OF Cons.prems(3) Cons.prems(2)])
  have ne: "operator_neq (Some a) FunctionInputIterator_default h = (Inr True, ?g)"
    using Cons.prems(1,2) la
    by (simp add: operator_neq_def equal_unfold dangling_def FunctionInputIterator_default_def
        null_or_last_def)
  have d: "dereference (Some a) ?g = (Inr (Some x), ?k)"
    using Cons.prems(1,2) by (simp add: dereference_cached)
  have step: "collect (Some a) FunctionInputIterator_default out h =
      collect (Some a) FunctionInputIterator_default (out @ [Some x]) ?k"
    by (subst collect.simps) (simp add: ne d increment_def)
  have "\<exists>h'. collect (Some a) FunctionInputIterator_default (out @ [Some x]) ?k =
        Some (Inr ((out @ [Some x]) @ map Some xs), h') \<and>
      calls h' a = calls ?k a + length xs + 1 \<and> v_last (Values_cells h' ! a)"
    using Cons.prems(1,2,5) r
    by (intro Cons.IH) (simp_all add: Values_update_def)
  moreover have "calls ?k a = calls h a + 1"
    by (simp add: calls_def Values_update_def)
  ultimately show ?case
    by (simp add: step)
qed

text \<open>
  Claim C4. For a producer whose successive calls return the values \<open>xs\<close> and then
  signal the end, the loop over a new iterator returns, and it has collected exactly
  the values \<open>xs\<close>, in order, each once; the producer has been called once per value
  and once more for the signal, and the iterator is then at its end.
\<close>

theorem collect_yields_producer_values:
  assumes new: "FunctionInputIterator_from f h0 = (first, h)"
    and vals: "returns f xs = Some f'"
    and signal: "fst (call f') = Inl out_of_range"
  shows "\<exists>h'. collect first FunctionInputIterator_default [] h = Some (Inr (map Some xs), h') \<and>
     calls h' (length (Values_cells h0)) = calls h0 (length (Values_cells h0)) + length xs + 1 \<and>
     first = Some (length (Values_cells h0)) \<and>
     v_last (Values_cells h' ! length (Values_cells h0))"
proof -
  let ?a = "length (Values_cells h0)"
  from new have it: "first = Some ?a"
    and h: "h = h0\<lparr>Values_cells := Values_cells h0 @
            [\<lparr>v_last = False, v_value_valid = False, v_fun = f, v_value = None\<rparr>]\<rparr>"
    by (auto dest: new_iterator)
  have "\<exists>h'. collect (Some ?a) FunctionInputIterator_default [] h =
        Some (Inr ([] @ map Some xs), h') \<and>
      calls h' ?a = calls h ?a + length xs + 1 \<and> v_last (Values_cells h' ! ?a)"
    using vals signal by (intro collect_from) (simp_all add: h)
  then show ?thesis
    by (simp add: it) (simp add: h calls_def)
qed

text \<open>A producer of the values 3, 5 and 8 is called four times, and the loop collects 3, 5, 8.\<close>

theorem collect_yields_producer_values_witness:
  "\<exists>h'. collect (Some 0) FunctionInputIterator_default []
       (snd (FunctionInputIterator_from (list_producer [3, 5, 8::nat]) empty_heap)) =
     Some (Inr [Some 3, Some 5, Some 8], h') \<and> calls h' 0 = 4"
proof -
  have new: "FunctionInputIterator_from (list_producer [3, 5, 8::nat]) empty_heap =
     (Some 0, snd (FunctionInputIterator_from (list_producer [3, 5, 8::nat]) empty_heap))"
    by (simp add: FunctionInputIterator_from_def new_Values_def empty_heap_def)
  have vals: "returns (list_producer [3, 5, 8::nat]) [3, 5, 8] = Some (list_producer [])"
    by (simp add: call_def list_producer_def)
  have signal: "fst (call (list_producer ([]::nat list))) = Inl out_of_range"
    by (simp add: call_def list_producer_def)
  from collect_yields_producer_values [OF new vals signal] show ?thesis
    by (auto simp: empty_heap_def calls_def)
qed

section \<open>Assignment through the output iterator\<close>

lemma assign_valid:
  assumes "a < length (Function1_cells h)"
  shows "assign (Some a) x h =
     (fst (call1 (Function1_cells h ! a) x),
      h\<lparr>Function1_cells := (Function1_cells h)[a := snd (call1 (Function1_cells h ! a) x)],
        consumed := (a, x) # consumed h\<rparr>)"
  using assms by (simp add: assign_def split: prod.splits)

lemma copy_to_consumed:
  assumes "a < length (Function1_cells h)" "copy_to xs (Some a) h = (None, it, h')"
  shows "consumed h' = rev (map (Pair a) xs) @ consumed h \<and> it = Some a \<and>
     length (Function1_cells h') = length (Function1_cells h) \<and>
     (\<forall>b. b \<noteq> a \<longrightarrow> Function1_cells h' ! b = Function1_cells h ! b)"
  using assms
proof (induction xs arbitrary: h)
  case Nil
  then show ?case by simp
next
  case (Cons x xs)
  let ?g = "snd (assign (Some a) x h)"
  from Cons.prems have r: "fst (assign (Some a) x h) = None"
    and c: "copy_to xs (Some a) ?g = (None, it, h')"
    by (auto simp: out_dereference_def out_increment_def split: prod.splits option.splits)
  from Cons.prems(1) have g: "a < length (Function1_cells ?g)"
    "consumed ?g = (a, x) # consumed h"
    "length (Function1_cells ?g) = length (Function1_cells h)"
    "\<And>b. b \<noteq> a \<Longrightarrow> Function1_cells ?g ! b = Function1_cells h ! b"
    by (simp_all add: assign_valid)
  from Cons.IH[OF g(1) c] g(2,3,4) show ?case by simp
qed

text \<open>
  Claim C5. An assignment through an output iterator that holds a consumer calls that
  consumer once, with the assigned value: the record of calls grows by exactly this
  call, and the store changes only in the consumer's own members. Incrementing and
  dereferencing return the iterator and leave the store as it is, so they call nothing.
  Assigning a sequence of values (none of the calls throwing) calls the consumer with
  exactly these values, in order, and changes no other object.
\<close>

theorem assignment_calls_consumer_once:
  assumes valid: "a < length (Function1_cells h)"
  shows "assign (Some a) x h =
       (fst (call1 (Function1_cells h ! a) x),
        h\<lparr>Function1_cells := (Function1_cells h)[a := snd (call1 (Function1_cells h ! a) x)],
          consumed := (a, x) # consumed h\<rparr>) \<and>
     out_increment (Some a) h = (Some a, h) \<and>
     out_dereference (Some a) h = (Some a, h) \<and>
     (fst (copy_to xs (Some a) h) = None \<longrightarrow>
        consumed (snd (snd (copy_to xs (Some a) h))) = rev (map (Pair a) xs) @ consumed h \<and>
        (\<forall>b. b \<noteq> a \<longrightarrow>
           Function1_cells (snd (snd (copy_to xs (Some a) h))) ! b = Function1_cells h ! b))"
proof -
  obtain r it h' where c: "copy_to xs (Some a) h = (r, it, h')"
    by (cases "copy_to xs (Some a) h") auto
  have "r = None \<longrightarrow> consumed h' = rev (map (Pair a) xs) @ consumed h \<and>
      (\<forall>b. b \<noteq> a \<longrightarrow> Function1_cells h' ! b = Function1_cells h ! b)"
    using valid c copy_to_consumed[of a h xs it h'] by simp
  with valid show ?thesis
    by (simp add: assign_valid out_increment_def out_dereference_def c)
qed

text \<open>
  Assigning 3, 5 and 8 through an iterator made from \<open>push_back\<close>: three calls, with 3, 5
  and 8, and the consumer holds the list of the three values.
\<close>

theorem assignment_calls_consumer_once_witness:
  "fst (copy_to [3, 5, 8::nat] (Some 0)
      (snd (make_function_output_iterator push_back \<lparr>Function1_cells = [], consumed = []\<rparr>))) = None \<and>
   consumed (snd (snd (copy_to [3, 5, 8::nat] (Some 0)
      (snd (make_function_output_iterator push_back \<lparr>Function1_cells = [], consumed = []\<rparr>))))) =
     [(0, 8), (0, 5), (0, 3)] \<and>
   state1 (Function1_cells (snd (snd (copy_to [3, 5, 8::nat] (Some 0)
      (snd (make_function_output_iterator push_back \<lparr>Function1_cells = [], consumed = []\<rparr>))))) ! 0) =
     [3, 5, 8]"
proof -
  let ?h = "snd (make_function_output_iterator push_back
      \<lparr>Function1_cells = [], consumed = ([] :: (nat \<times> nat) list)\<rparr>)"
  have valid: "0 < length (Function1_cells ?h)"
    by (simp add: make_function_output_iterator_def FunctionOutputIterator_from_def)
  have ok: "fst (copy_to [3, 5, 8::nat] (Some 0) ?h) = None"
    and st: "state1 (Function1_cells (snd (snd (copy_to [3, 5, 8::nat] (Some 0) ?h))) ! 0) = [3, 5, 8]"
    and empty: "consumed ?h = []"
    by (simp_all add: make_function_output_iterator_def FunctionOutputIterator_from_def
        out_dereference_def out_increment_def assign_def call1_def push_back_def)
  have "consumed (snd (snd (copy_to [3, 5, 8::nat] (Some 0) ?h))) = [(0, 8), (0, 5), (0, 3)]"
    using assignment_calls_consumer_once [OF valid, of _ "[3, 5, 8]"] ok empty
    by (simp del: copy_to.simps)
  with ok st show ?thesis
    by blast
qed

section \<open>The pool under every schedule\<close>

text \<open>Every step keeps the invariant of the bulk submission.\<close>

lemma task_ok_Pending [simp]: "task_ok f (x, Pending)"
  and task_ok_Running [simp]: "task_ok f (x, Running)"
  and task_ok_run_task [simp]: "task_ok f (x, run_task f x)"
  by (simp_all add: task_ok_def run_task_def split: sum.splits)

lemma run_task_finished [simp]: "run_task f x \<noteq> Pending" "run_task f x \<noteq> Running"
  by (simp_all add: run_task_def split: sum.splits)

lemma list_all_update:
  "list_all P xs \<Longrightarrow> P y \<Longrightarrow> list_all P (xs[i := y])"
  by (induction xs arbitrary: i) (auto split: nat.splits)

lemma fst_nth_update [simp]:
  "fst ((ts[i := (fst (ts ! i), st)]) ! h) = fst (ts ! h)"
  by (cases "i < length ts"; cases "h = i") (simp_all add: list_update_beyond)

lemma submit_bulk_inv:
  assumes "bulk_inv f xs s"
  shows "bulk_inv f xs (snd (submit x s))"
proof -
  have m: "map (\<lambda>h. fst ((tasks s @ [(x, Pending)]) ! h)) (in_flight s) =
      map (\<lambda>h. fst (tasks s ! h)) (in_flight s)"
    using assms by (intro map_cong) (auto simp: bulk_inv_def nth_append)
  from assms show ?thesis
    unfolding bulk_inv_def submit_def
    by (simp add: m) (auto simp: nth_append less_Suc_eq)
qed

lemma submit_next_bulk_inv:
  assumes "bulk_inv f xs s"
  shows "bulk_inv f xs (submit_next s)"
proof (cases "remaining s")
  case Nil
  with assms show ?thesis by (simp add: submit_next_def)
next
  case (Cons x rest)
  have m: "map (\<lambda>h. fst ((tasks s @ [(x, Pending)]) ! h)) (in_flight s) =
      map (\<lambda>h. fst (tasks s ! h)) (in_flight s)"
    using assms by (intro map_cong) (auto simp: bulk_inv_def nth_append)
  from assms Cons show ?thesis
    unfolding bulk_inv_def submit_next_def submit_def
    by (simp add: m) (auto simp: nth_append less_Suc_eq)
qed

lemma dequeue_bulk_inv:
  assumes inv: "bulk_inv f xs s" and fire: "fire f (Dequeue w) s = Some s'"
  shows "bulk_inv f xs s'"
proof -
  from fire obtain i q where w: "w < length (workers s)" "workers s ! w = None"
    and q: "queue s = i # q"
    and s': "s' = s\<lparr>queue := q, workers := (workers s)[w := Some i],
                     tasks := (tasks s)[i := (fst (tasks s ! i), Running)]\<rparr>"
    by (auto split: if_splits list.splits)
  have tracked: "(snd (tasks s' ! j) = Pending \<longrightarrow> j \<in> set (queue s')) \<and>
      (snd (tasks s' ! j) = Running \<longrightarrow> Some j \<in> set (workers s'))"
    if j: "j < length (tasks s)" for j
  proof (cases "j = i")
    case True
    with j w show ?thesis by (simp add: s' set_update_memI)
  next
    case False
    from inv j have old: "(snd (tasks s ! j) = Pending \<longrightarrow> j \<in> set (queue s)) \<and>
        (snd (tasks s ! j) = Running \<longrightarrow> Some j \<in> set (workers s))"
      by (simp add: bulk_inv_def)
    have "Some j \<in> set ((workers s)[w := Some i])" if "Some j \<in> set (workers s)"
    proof -
      from that obtain k where k: "k < length (workers s)" "workers s ! k = Some j"
        by (auto simp: in_set_conv_nth)
      with w have "k \<noteq> w" by auto
      with k have "(workers s)[w := Some i] ! k = Some j" by simp
      with k show ?thesis by (metis length_list_update nth_mem)
    qed
    with False old q show ?thesis by (auto simp: s')
  qed
  from inv tracked show ?thesis
    unfolding bulk_inv_def by (simp add: s' list_all_update)
qed

lemma execute_bulk_inv:
  assumes inv: "bulk_inv f xs s" and fire: "fire f (Execute w) s = Some s'"
  shows "bulk_inv f xs s'"
proof -
  from fire obtain i where w: "w < length (workers s)" "workers s ! w = Some i"
    and s': "s' = s\<lparr>workers := (workers s)[w := None],
        tasks := (tasks s)[i := (fst (tasks s ! i), run_task f (fst (tasks s ! i)))]\<rparr>"
    by (auto split: if_splits option.splits)
  have tracked: "(snd (tasks s' ! j) = Pending \<longrightarrow> j \<in> set (queue s')) \<and>
      (snd (tasks s' ! j) = Running \<longrightarrow> Some j \<in> set (workers s'))"
    if j: "j < length (tasks s)" for j
  proof (cases "j = i")
    case True
    with j show ?thesis by (simp add: s')
  next
    case False
    from inv j have old: "(snd (tasks s ! j) = Pending \<longrightarrow> j \<in> set (queue s)) \<and>
        (snd (tasks s ! j) = Running \<longrightarrow> Some j \<in> set (workers s))"
      by (simp add: bulk_inv_def)
    have "Some j \<in> set ((workers s)[w := None])" if "Some j \<in> set (workers s)"
    proof -
      from that obtain k where k: "k < length (workers s)" "workers s ! k = Some j"
        by (auto simp: in_set_conv_nth)
      with w False have "k \<noteq> w" by auto
      with k have "(workers s)[w := None] ! k = Some j" by simp
      with k show ?thesis by (metis length_list_update nth_mem)
    qed
    with False old show ?thesis by (auto simp: s')
  qed
  from inv tracked show ?thesis
    unfolding bulk_inv_def by (simp add: s' list_all_update)
qed

lemma get_Some:
  "get s h = Some r \<Longrightarrow> list_all (task_ok f) (tasks s) \<Longrightarrow>
     h < length (tasks s) \<and> r = f (fst (tasks s ! h))"
  by (auto simp: get_def task_ok_def list_all_length split: if_splits Task_state.splits)

lemma yield_bulk_inv:
  assumes inv: "bulk_inv f xs s" and fire: "fire f Yield s = Some s'"
  shows "bulk_inv f xs s'"
proof -
  from fire obtain h hs r where fl: "in_flight s = h # hs" and g: "get s h = Some r"
    and s': "s' = submit_next (s\<lparr>in_flight := hs, yielded := yielded s @ [r]\<rparr>)"
    by (auto split: list.splits option.splits)
  let ?n = "length (yielded s)"
  from inv g have r: "r = f (fst (tasks s ! h))"
    by (auto simp: bulk_inv_def dest: get_Some)
  from inv fl have d: "fst (tasks s ! h) # map (\<lambda>h. fst (tasks s ! h)) hs @ remaining s = drop ?n xs"
    by (simp add: bulk_inv_def)
  then have lt: "?n < length xs"
    by (cases "?n < length xs") auto
  from d lt have hd: "fst (tasks s ! h) = xs ! ?n"
    and tl: "map (\<lambda>h. fst (tasks s ! h)) hs @ remaining s = drop (Suc ?n) xs"
    by (simp_all add: Cons_nth_drop_Suc[symmetric])
  from inv have y: "yielded s = map f (take ?n xs)" by (simp add: bulk_inv_def)
  have y': "yielded s @ [r] = map f (take (Suc ?n) xs)"
    using lt by (subst y) (simp add: take_Suc_conv_app_nth r hd)
  have "bulk_inv f xs (s\<lparr>in_flight := hs, yielded := yielded s @ [r]\<rparr>)"
    using inv fl lt tl y' unfolding bulk_inv_def by simp
  then show ?thesis unfolding s' by (rule submit_next_bulk_inv)
qed

lemma fire_bulk_inv:
  "bulk_inv f xs s \<Longrightarrow> fire f ev s = Some s' \<Longrightarrow> bulk_inv f xs s'"
proof (cases ev)
  case (Submit x)
  then show "bulk_inv f xs s \<Longrightarrow> fire f ev s = Some s' \<Longrightarrow> bulk_inv f xs s'"
    using submit_bulk_inv[of f xs s x] by auto
qed (auto dest: dequeue_bulk_inv execute_bulk_inv yield_bulk_inv)

lemma run_bulk_inv:
  "bulk_inv f xs s \<Longrightarrow> run f evs s = Some s' \<Longrightarrow> bulk_inv f xs s'"
  by (induction evs arbitrary: s) (auto split: option.splits dest: fire_bulk_inv)

text \<open>The length of a schedule.\<close>

lemma busy_take: "w < length ws \<Longrightarrow> ws ! w = None \<Longrightarrow> busy (ws[w := Some i]) = Suc (busy ws)"
  unfolding busy_def by (induction ws arbitrary: w) (auto split: nat.splits)

lemma busy_release: "w < length ws \<Longrightarrow> ws ! w = Some i \<Longrightarrow> Suc (busy (ws[w := None])) = busy ws"
  unfolding busy_def by (induction ws arbitrary: w) (auto split: nat.splits)

lemma potential_submit_next [simp]: "potential (submit_next s) = potential s"
  by (simp add: potential_def submit_next_def submit_def split: list.splits)

lemma potential_fire:
  assumes "fire f ev s = Some s'"
  shows "potential s + 2 * submissions [ev] = potential s' + (1 - submissions [ev])"
proof (cases ev)
  case (Submit x)
  with assms show ?thesis by (auto simp: potential_def submit_def)
next
  case (Dequeue w)
  with assms show ?thesis
    by (auto simp: potential_def busy_take split: if_splits list.splits)
next
  case (Execute w)
  with assms busy_release[of w "workers s"] show ?thesis
    by (auto simp: potential_def split: if_splits option.splits)
next
  case Yield
  from Yield assms obtain h hs r where "in_flight s = h # hs"
    and "s' = submit_next (s\<lparr>in_flight := hs, yielded := yielded s @ [r]\<rparr>)"
    by (auto split: list.splits option.splits)
  with Yield show ?thesis by simp (simp add: potential_def)
qed

lemma submissions_Cons: "submissions (ev # evs) = submissions [ev] + submissions evs"
  by (cases ev) simp_all

lemma potential_run:
  "run f evs s = Some s' \<Longrightarrow>
     potential s + 3 * submissions evs = potential s' + length evs"
proof (induction evs arbitrary: s)
  case Nil
  then show ?case by simp
next
  case (Cons ev evs)
  from Cons.prems obtain s1 where f: "fire f ev s = Some s1" and r: "run f evs s1 = Some s'"
    by (auto split: option.splits)
  from potential_fire[OF f] Cons.IH[OF r] show ?case
    by (subst submissions_Cons) (cases ev; simp)
qed

text \<open>The eager part of \<^verbatim>\<open>submit_range\<close>, and the state it starts the schedule from.\<close>

lemma submit_next_lengths:
  "length (in_flight (submit_next s)) =
     (if remaining s = [] then length (in_flight s) else Suc (length (in_flight s))) \<and>
   remaining (submit_next s) = tl (remaining s) \<and>
   workers (submit_next s) = workers s \<and> yielded (submit_next s) = yielded s"
  by (simp add: submit_next_def submit_def split: list.splits)

lemma eager_lengths:
  "length (in_flight ((submit_next ^^ k) s)) = length (in_flight s) + min k (length (remaining s)) \<and>
   length (remaining ((submit_next ^^ k) s)) = length (remaining s) - k \<and>
   workers ((submit_next ^^ k) s) = workers s \<and> yielded ((submit_next ^^ k) s) = yielded s \<and>
   potential ((submit_next ^^ k) s) = potential s"
proof (induction k)
  case 0
  show ?case by simp
next
  case (Suc k)
  let ?s = "(submit_next ^^ k) s"
  from Suc submit_next_lengths[of ?s] show ?case
    by (cases "remaining ?s") (auto simp: min_def)
qed

lemmas eager_in_flight = eager_lengths[THEN conjunct1]
  and eager_remaining = eager_lengths[THEN conjunct2, THEN conjunct1]
  and eager_workers = eager_lengths[THEN conjunct2, THEN conjunct2, THEN conjunct1]
  and eager_yielded = eager_lengths[THEN conjunct2, THEN conjunct2, THEN conjunct2, THEN conjunct1]
  and eager_potential = eager_lengths[THEN conjunct2, THEN conjunct2, THEN conjunct2, THEN conjunct2]

lemma eager_bulk_inv: "bulk_inv f xs s \<Longrightarrow> bulk_inv f xs ((submit_next ^^ k) s)"
  by (induction k) (simp_all add: submit_next_bulk_inv)

lemma submit_range_bulk_inv:
  "bulk_inv f xs (submit_range watermark xs (new_Pool worker_count))"
proof -
  have "bulk_inv f xs ((new_Pool worker_count)\<lparr>remaining := xs, in_flight := [], yielded := []\<rparr>)"
    by (simp add: bulk_inv_def new_Pool_def)
  then show ?thesis unfolding submit_range_def by (rule eager_bulk_inv)
qed

lemma submit_range_at_watermark:
  "at_watermark watermark
     (submit_range watermark xs (new_Pool worker_count :: ('a, 'e, 'r) Pool))"
proof -
  let ?s = "(submit_next ^^ watermark)
      ((new_Pool worker_count :: ('a, 'e, 'r) Pool)
         \<lparr>remaining := xs, in_flight := [], yielded := []\<rparr>)"
  have i: "length (in_flight ?s) = min watermark (length xs)"
    and r: "length (remaining ?s) = length xs - watermark"
    by (simp_all add: eager_in_flight eager_remaining)
  have "remaining ?s \<noteq> [] \<longrightarrow> length (in_flight ?s) = watermark"
  proof
    assume "remaining ?s \<noteq> []"
    then have "0 < length (remaining ?s)" by simp
    then have "watermark < length xs" unfolding r by simp
    then show "length (in_flight ?s) = watermark" unfolding i by simp
  qed
  then show ?thesis by (simp add: submit_range_def at_watermark_def)
qed

lemma submit_range_workers:
  "workers (submit_range watermark xs (new_Pool worker_count)) = replicate worker_count None"
  by (simp add: submit_range_def eager_workers new_Pool_def)

lemma submit_range_potential:
  "potential (submit_range watermark xs (new_Pool worker_count)) = 3 * length xs"
  by (simp add: submit_range_def eager_potential) (simp add: potential_def new_Pool_def busy_def)

lemma fire_at_watermark:
  assumes "at_watermark watermark s" "fire f ev s = Some s'"
  shows "at_watermark watermark s'"
proof (cases ev)
  case Yield
  from Yield assms(2) obtain h hs r where fl: "in_flight s = h # hs"
    and s': "s' = submit_next (s\<lparr>in_flight := hs, yielded := yielded s @ [r]\<rparr>)"
    by (auto split: list.splits option.splits)
  from assms(1) fl submit_next_lengths[of "s\<lparr>in_flight := hs, yielded := yielded s @ [r]\<rparr>"]
  show ?thesis
    by (cases "remaining s") (auto simp: at_watermark_def s')
qed (use assms in \<open>auto simp: at_watermark_def submit_def split: if_splits list.splits option.splits\<close>)

lemma run_at_watermark:
  "at_watermark watermark s \<Longrightarrow> run f evs s = Some s' \<Longrightarrow> at_watermark watermark s'"
  by (induction evs arbitrary: s) (auto split: option.splits dest: fire_at_watermark)

lemma fire_workers_length:
  "fire f ev s = Some s' \<Longrightarrow> length (workers s') = length (workers s)"
  by (cases ev)
    (auto simp: submit_def submit_next_lengths split: if_splits list.splits option.splits)

lemma run_workers_length:
  "run f evs s = Some s' \<Longrightarrow> length (workers s') = length (workers s)"
  by (induction evs arbitrary: s) (auto split: option.splits dest: fire_workers_length)

text \<open>
  When no worker and no consumer step is possible, everything has been yielded: there
  is no state in which the consumer waits for a Task that no worker will complete.
\<close>

lemma quiescent_complete:
  assumes inv: "bulk_inv f xs s" and wm: "at_watermark watermark s" "0 < watermark"
    and ws: "workers s \<noteq> []"
    and deq: "\<forall>w. fire f (Dequeue w) s = None"
    and exe: "\<forall>w. fire f (Execute w) s = None"
    and yld: "fire f Yield s = None"
  shows "yielded s = map f xs"
proof -
  have idle: "workers s ! w = None" if "w < length (workers s)" for w
    using exe[rule_format, of w] that by (auto split: option.splits)
  then have no_worker: "Some i \<notin> set (workers s)" for i
    by (auto simp: in_set_conv_nth)
  from ws idle[of 0] deq[rule_format, of 0] have q: "queue s = []"
    by (auto split: list.splits)
  have finished: "snd (tasks s ! i) \<noteq> Pending \<and> snd (tasks s ! i) \<noteq> Running"
    if "i < length (tasks s)" for i
    using inv that q no_worker by (auto simp: bulk_inv_def)
  have fl: "in_flight s = []"
  proof (cases "in_flight s")
    case Nil
    then show ?thesis .
  next
    case (Cons h hs)
    with inv have "h < length (tasks s)" by (simp add: bulk_inv_def)
    with finished[of h] have "get s h \<noteq> None"
      by (auto simp: get_def split: Task_state.splits)
    with yld Cons show ?thesis by (auto split: option.splits)
  qed
  with wm have "remaining s = []" by (auto simp: at_watermark_def)
  with inv fl have "drop (length (yielded s)) xs = []"
    unfolding bulk_inv_def by simp
  then have "take (length (yielded s)) xs = xs" by simp
  moreover from inv have "yielded s = map f (take (length (yielded s)) xs)"
    unfolding bulk_inv_def by blast
  ultimately show ?thesis by simp
qed

text \<open>
  Claim C6. After \<^verbatim>\<open>submit_range\<close> of the inputs \<open>xs\<close> on a new pool, and for every
  schedule of the workers, the consumer and other submitters: what the output sequence
  has yielded is, at every moment, the outcomes \<open>f x\<close> of the first inputs, in the order
  of the inputs. A schedule has at most three steps for each Task, so it cannot go on
  for ever without new submissions; and when no worker and no consumer step is possible
  any more (with at least one worker and a positive watermark), the output sequence
  has yielded exactly \<open>map f xs\<close>.
\<close>

theorem submit_range_yields_in_submission_order:
  assumes "run f evs (submit_range watermark xs (new_Pool worker_count)) = Some s"
  shows "yielded s = map f (take (length (yielded s)) xs) \<and>
     length (yielded s) \<le> length xs \<and>
     length evs \<le> 3 * (length xs + submissions evs) \<and>
     (0 < worker_count \<and> 0 < watermark \<and>
      (\<forall>w. fire f (Dequeue w) s = None) \<and> (\<forall>w. fire f (Execute w) s = None) \<and>
      fire f Yield s = None \<longrightarrow> yielded s = map f xs)"
proof -
  from assms have inv: "bulk_inv f xs s"
    by (rule run_bulk_inv[OF submit_range_bulk_inv])
  from assms have wm: "at_watermark watermark s"
    by (rule run_at_watermark[OF submit_range_at_watermark])
  from run_workers_length[OF assms] have ws: "length (workers s) = worker_count"
    by (simp add: submit_range_workers)
  from potential_run[OF assms] have "length evs \<le> 3 * (length xs + submissions evs)"
    by (simp add: submit_range_potential)
  moreover from inv have "yielded s = map f (take (length (yielded s)) xs)"
    "length (yielded s) \<le> length xs"
    by (simp_all add: bulk_inv_def)
  moreover have "yielded s = map f xs"
    if "0 < worker_count" "0 < watermark" "\<forall>w. fire f (Dequeue w) s = None"
      "\<forall>w. fire f (Execute w) s = None" "fire f Yield s = None"
    using inv wm that(2) _ that(3,4,5)
  proof (rule quiescent_complete)
    from ws that(1) show "workers s \<noteq> []" by auto
  qed
  ultimately show ?thesis by blast
qed

text \<open>
  Three inputs, a watermark of two and two workers, the second of which completes its
  Task first: the output sequence yields the three outcomes in the order of the inputs.
\<close>

lemma out_of_order_run:
  "run square_unless_two out_of_order (submit_range 2 [1, 2, 3] (new_Pool 2)) =
     Some \<lparr>tasks = [(1, Completed 1), (2, Failed ''two''), (3, Completed 9)],
       queue = [], workers = [None, None], remaining = [], in_flight = [],
       yielded = [Inr 1, Inl ''two'', Inr 9]\<rparr>"
  by code_simp

theorem submit_range_yields_in_submission_order_witness:
  "map_option yielded
     (run square_unless_two out_of_order (submit_range 2 [1, 2, 3] (new_Pool 2))) =
   Some (map square_unless_two [1, 2, 3])"
proof -
  let ?s = "\<lparr>tasks = [(1::nat, Completed (1::nat)), (2, Failed ''two''), (3, Completed 9)],
       queue = [], workers = [None, None], remaining = [], in_flight = [],
       yielded = [Inr 1, Inl ''two'', Inr 9]\<rparr>"
  have quiet: "\<forall>w. fire square_unless_two (Dequeue w) ?s = None"
    "\<forall>w. fire square_unless_two (Execute w) ?s = None"
    "fire square_unless_two Yield ?s = None"
    by (simp_all add: nth_Cons' less_Suc_eq numeral_2_eq_2)
  note all = submit_range_yields_in_submission_order [OF out_of_order_run]
  have "yielded ?s = map square_unless_two [1, 2, 3]"
    by (rule all [THEN conjunct2, THEN conjunct2, THEN conjunct2, THEN mp])
      (intro conjI quiet; simp)
  then show ?thesis
    by (simp only: out_of_order_run option.map)
qed

text \<open>
  Claim C7. In every state a new pool can reach, by any schedule of submissions and
  worker steps, the number of workers is the one the pool was made with. A Task whose
  callable raises \<open>e\<close> is Pending, Running or Failed with \<open>e\<close>, never Completed, and once
  it is Failed, \<^verbatim>\<open>get()\<close> on its handle gives the error \<open>e\<close> again. The worker that holds
  the Task can execute it: this leaves the Task Failed with \<open>e\<close>, the worker idle and
  still in the pool, every other worker, the queue and all other Tasks as they were;
  and when a Task is waiting in the queue, this same worker can dequeue it next.
\<close>

theorem task_error_is_captured:
  assumes run: "run f evs (new_Pool worker_count) = Some s"
    and i: "i < length (tasks s)" and raises: "f (fst (tasks s ! i)) = Inl e"
  shows "length (workers s) = worker_count \<and>
     (snd (tasks s ! i) = Pending \<or> snd (tasks s ! i) = Running \<or>
      snd (tasks s ! i) = Failed e \<and> get s i = Some (Inl e)) \<and>
     (\<forall>w. w < length (workers s) \<and> workers s ! w = Some i \<longrightarrow>
        (\<exists>s'. fire f (Execute w) s = Some s' \<and>
           snd (tasks s' ! i) = Failed e \<and> get s' i = Some (Inl e) \<and>
           length (workers s') = worker_count \<and> workers s' ! w = None \<and>
           (\<forall>v. v \<noteq> w \<longrightarrow> workers s' ! v = workers s ! v) \<and>
           queue s' = queue s \<and>
           (\<forall>j. j \<noteq> i \<longrightarrow> tasks s' ! j = tasks s ! j) \<and>
           (\<forall>j q. queue s = j # q \<longrightarrow>
              (\<exists>s''. fire f (Dequeue w) s' = Some s'' \<and> workers s'' ! w = Some j \<and>
                 queue s'' = q \<and> length (workers s'') = worker_count))))"
proof -
  have "bulk_inv f [] (new_Pool worker_count)"
    by (simp add: bulk_inv_def new_Pool_def)
  from this run have inv: "bulk_inv f [] s" by (rule run_bulk_inv)
  from run have ws: "length (workers s) = worker_count"
    by (auto dest: run_workers_length simp: new_Pool_def)
  from inv i have "task_ok f (tasks s ! i)"
    by (simp add: bulk_inv_def list_all_length)
  with raises i have st: "snd (tasks s ! i) = Pending \<or> snd (tasks s ! i) = Running \<or>
      snd (tasks s ! i) = Failed e \<and> get s i = Some (Inl e)"
    by (auto simp: task_ok_def get_def split: Task_state.splits)
  have ex: "\<exists>s'. fire f (Execute w) s = Some s' \<and>
           snd (tasks s' ! i) = Failed e \<and> get s' i = Some (Inl e) \<and>
           length (workers s') = worker_count \<and> workers s' ! w = None \<and>
           (\<forall>v. v \<noteq> w \<longrightarrow> workers s' ! v = workers s ! v) \<and>
           queue s' = queue s \<and>
           (\<forall>j. j \<noteq> i \<longrightarrow> tasks s' ! j = tasks s ! j) \<and>
           (\<forall>j q. queue s = j # q \<longrightarrow>
              (\<exists>s''. fire f (Dequeue w) s' = Some s'' \<and> workers s'' ! w = Some j \<and>
                 queue s'' = q \<and> length (workers s'') = worker_count))"
    if "w < length (workers s)" "workers s ! w = Some i" for w
    using that i raises ws by (simp add: get_def run_task_def)
  from ws st ex show ?thesis by blast
qed

text \<open>
  Two Tasks submitted to a pool of one worker, the first of which fails: the worker
  executes it, is idle afterwards and takes the second Task.
\<close>

lemma one_worker_run:
  "run square_unless_two one_worker (new_Pool 1) =
     Some \<lparr>tasks = [(2, Running), (3, Pending)], queue = [1], workers = [Some 0],
       remaining = [], in_flight = [], yielded = []\<rparr>"
  by code_simp

theorem task_error_is_captured_witness:
  "\<exists>s' s''. fire square_unless_two (Execute 0)
        \<lparr>tasks = [(2, Running), (3, Pending)], queue = [1], workers = [Some 0],
         remaining = [], in_flight = [], yielded = []\<rparr> = Some s' \<and>
      snd (tasks s' ! 0) = Failed ''two'' \<and> get s' 0 = Some (Inl ''two'') \<and>
      length (workers s') = 1 \<and> workers s' ! 0 = None \<and>
      fire square_unless_two (Dequeue 0) s' = Some s'' \<and> workers s'' ! 0 = Some 1"
proof -
  let ?s = "\<lparr>tasks = [(2::nat, Running), (3, Pending)], queue = [1], workers = [Some 0],
         remaining = [], in_flight = [], yielded = []\<rparr> :: (nat, string, nat) Pool"
  have i: "0 < length (tasks ?s)" and raises: "square_unless_two (fst (tasks ?s ! 0)) = Inl ''two''"
    and w: "0 < length (workers ?s) \<and> workers ?s ! 0 = Some 0"
    and q: "queue ?s = 1 # []"
    by (simp_all add: square_unless_two_def)
  note all = task_error_is_captured [OF one_worker_run i raises]
  from all [THEN conjunct2, THEN conjunct2, THEN spec, of 0, THEN mp, OF w] q
  show ?thesis by blast
qed

end
